theory Spec2Isabelle
  imports Complex_Main "HOL-Library.Word"
begin

section \<open>Strings of the host language\<close>

text \<open>
  A JavaScript string is a sequence of 16-bit code units; \<open>length\<close>, \<open>charCodeAt\<close>,
  \<open>trim\<close> and the regular-expression class \<open>\s\<close> all work on code units. Text that the
  extractors measure, normalise or hash is therefore a list of \<open>16 word\<close>. Strings that the
  code only copies or compares with ASCII literals (tag names, selectors, style values, URLs,
  markup snapshots) are kept as HOL strings.
\<close>

type_synonym jschar = "16 word"
type_synonym jsstring = "jschar list"

definition js :: "string \<Rightarrow> jsstring" where
  "js s = map of_char s"

abbreviation SP :: jschar where "SP \<equiv> 0x20"
abbreviation TAB :: jschar where "TAB \<equiv> 0x09"
abbreviation NL :: jschar where "NL \<equiv> 0x0A"

text \<open>The character class \<open>[ \t]\<close> of the first regular expression in \<open>cleanText\<close>.\<close>

definition is_space_tab :: "jschar \<Rightarrow> bool" where
  "is_space_tab c = (c = SP \<or> c = TAB)"

text \<open>
  ECMAScript white space and line terminators: what \<open>\s\<close> matches and what
  \<open>String.prototype.trim\<close> strips (TAB, LF, VT, FF, CR, SP, NBSP, the Unicode
  space separators, LS, PS and the byte-order mark).
\<close>

definition is_ws :: "jschar \<Rightarrow> bool" where
  "is_ws c = (c = 0x09 \<or> c = 0x0A \<or> c = 0x0B \<or> c = 0x0C \<or> c = 0x0D \<or> c = 0x20
     \<or> c = 0xA0 \<or> c = 0x1680 \<or> (0x2000 \<le> c \<and> c \<le> 0x200A) \<or> c = 0x2028 \<or> c = 0x2029
     \<or> c = 0x202F \<or> c = 0x205F \<or> c = 0x3000 \<or> c = 0xFEFF)"

section \<open>BaseExtractor (src/extractors/base.ts)\<close>

subsection \<open>cleanText\<close>

text \<open>
  \<open>text.replace(/[ \t]+/g, ' ')\<close>: scanning from the left, every maximal run of spaces and
  tabs is one match and is replaced by one space; every other code unit is copied.
\<close>

function replace_space_tab_runs :: "jsstring \<Rightarrow> jsstring" where
  "replace_space_tab_runs [] = []"
| "replace_space_tab_runs (c # cs) =
     (if is_space_tab c then SP # replace_space_tab_runs (dropWhile is_space_tab cs)
      else c # replace_space_tab_runs cs)"
  by pat_completeness auto
termination
  by (relation "measure length") (auto simp: length_dropWhile_le less_Suc_eq_le)

text \<open>
  \<open>/\n\s*\n/\<close> tried right after a newline: \<open>cs\<close> is the text that follows that newline.
  The greedy \<open>\s*\<close> first takes the whole white-space run and backtracks to the last
  newline in it; the result is the number of code units that \<open>\s*\n\<close> consumes, or
  \<open>None\<close> when the run holds no newline and the match fails at this position.
\<close>

definition blank_match :: "jsstring \<Rightarrow> nat option" where
  "blank_match cs =
     (let run = takeWhile is_ws cs
      in if NL \<in> set run then Some (length run - length (takeWhile (\<lambda>c. c \<noteq> NL) (rev run)))
         else None)"

text \<open>
  \<open>.replace(/\n\s*\n/g, '\n\n')\<close>: the leftmost match is replaced by two newlines and the
  scan goes on behind the match.
\<close>

function replace_blank_lines :: "jsstring \<Rightarrow> jsstring" where
  "replace_blank_lines [] = []"
| "replace_blank_lines (c # cs) =
     (if c = NL then
        (case blank_match cs of
           Some m \<Rightarrow> NL # NL # replace_blank_lines (drop m cs)
         | None \<Rightarrow> c # replace_blank_lines cs)
      else c # replace_blank_lines cs)"
  by pat_completeness auto
termination
  by (relation "measure length") auto

definition trim :: "jsstring \<Rightarrow> jsstring" where
  "trim s = rev (dropWhile is_ws (rev (dropWhile is_ws s)))"

text \<open>The value of the constant \<open>cleaned\<close> in \<open>cleanText\<close> (base.ts, lines 16 to 19).\<close>

definition cleaned :: "jsstring \<Rightarrow> jsstring" where
  "cleaned text = trim (replace_blank_lines (replace_space_tab_runs text))"

text \<open>
  The extractor object: the constructor parameter and the private \<open>textCache\<close>. A
  JavaScript \<open>Map\<close> keeps its keys distinct and in insertion order, so the cache is an
  association list; \<open>has\<close>/\<open>get\<close> are \<open>map_of\<close>, \<open>size\<close> is the length, and \<open>set\<close> of
  a key that is absent appends.
\<close>

record BaseExtractor =
  includeHtml :: bool
  textCache :: "(jsstring \<times> jsstring) list"

definition new_BaseExtractor :: "bool \<Rightarrow> BaseExtractor" where
  "new_BaseExtractor incl = \<lparr>includeHtml = incl, textCache = []\<rparr>"

definition cleanText :: "BaseExtractor \<Rightarrow> jsstring \<Rightarrow> jsstring \<times> BaseExtractor" where
  "cleanText this text =
     (case map_of (textCache this) text of
        Some hit \<Rightarrow> (hit, this)
      | None \<Rightarrow>
          (let c = cleaned text;
               cache = (if length (textCache this) > 100 then [] else textCache this)
           in (c, this\<lparr>textCache := cache @ [(text, c)]\<rparr>)))"

text \<open>\<open>Array.prototype.join(' ')\<close>.\<close>

fun join :: "jsstring list \<Rightarrow> jsstring" where
  "join [] = []"
| "join [x] = x"
| "join (x # y # ys) = x @ SP # join (y # ys)"

subsection \<open>generateId\<close>

text \<open>
  \<open>ToInt32\<close> of ECMAScript on an integral number: reduction modulo \<open>2^32\<close> into the signed
  range. All intermediate values of the hash stay below \<open>2^53\<close> in magnitude, so the
  double-precision arithmetic of the source is exact and is modelled on \<open>int\<close>.
  \<open>hash << 5\<close> is \<open>ToInt32 (ToInt32 hash * 32)\<close>, and \<open>hash & hash\<close> is \<open>ToInt32 hash\<close>.
\<close>

definition toInt32 :: "int \<Rightarrow> int" where
  "toInt32 x = (x + 2 ^ 31) mod 2 ^ 32 - 2 ^ 31"

definition hash_step :: "int \<Rightarrow> jschar \<Rightarrow> int" where
  "hash_step hash c =
     (let hash1 = (toInt32 (toInt32 hash * 2 ^ 5) - hash) + uint c
      in toInt32 hash1)"

definition digit_char :: "nat \<Rightarrow> jschar" where
  "digit_char d = of_nat (48 + d)"

text \<open>\<open>Number.prototype.toString\<close> on a non-negative integer below \<open>10^21\<close>.\<close>

fun toString :: "nat \<Rightarrow> jsstring" where
  "toString n = (if n < 10 then [digit_char n] else toString (n div 10) @ [digit_char (n mod 10)])"

definition generateId :: "jsstring \<Rightarrow> jsstring" where
  "generateId content =
     (if length content = 0 then toString 0
      else toString (nat \<bar>foldl hash_step 0 content\<bar>))"

subsection \<open>The DOM as the extractors observe it\<close>

text \<open>
  What the code reads from an element: its tag name, the selectors it matches (the host's
  selector engine: \<open>matches\<close> lists the selectors \<open>s\<close> for which \<open>Element.matches(s)\<close>
  holds), \<open>isConnected\<close>, whether \<open>offsetParent\<close> is \<open>null\<close>, the inline \<open>style.display\<close>
  and \<open>style.visibility\<close>, the size of \<open>getBoundingClientRect()\<close>, the computed style
  (\<open>None\<close> when \<open>window.getComputedStyle\<close> throws; otherwise display and visibility),
  \<open>href\<close> (absent on elements that are no anchors), and the markup snapshots.
\<close>

record element_props =
  tagName :: string
  matches :: "string list"
  isConnected :: bool
  offsetParent_null :: bool
  style_display :: string
  style_visibility :: string
  rect_width :: real
  rect_height :: real
  computedStyle :: "(string \<times> string) option"
  href :: "string option"
  innerHTML :: string
  outerHTML :: string

datatype element = Element (props: element_props) (childNodes: "node list")
  and node = TextNode jsstring | ElementNode element | OtherNode

subsection \<open>isElementVisible\<close>

definition isElementVisible :: "element \<Rightarrow> bool" where
  "isElementVisible el =
     (let e = props el in
      if \<not> isConnected e then False
      else if offsetParent_null e \<and> style_display e = ''none'' then False
      else if style_display e = ''none'' \<or> style_visibility e = ''hidden'' then False
      else if rect_width e = 0 \<or> rect_height e = 0 then False
      else (case computedStyle e of
              Some (display, visibility) \<Rightarrow> display \<noteq> ''none'' \<and> visibility \<noteq> ''hidden''
            | None \<Rightarrow> True))"

subsection \<open>extractTextRecursive and extractTextFromElement\<close>

text \<open>
  \<open>toLowerCase\<close> on the ASCII letters. No code unit outside ASCII lower-cases to a
  letter of the five excluded tag names, so this decides the membership test as the
  source does.
\<close>

definition toLowerCase :: "string \<Rightarrow> string" where
  "toLowerCase s =
     map (\<lambda>c. case map_of (zip ''ABCDEFGHIJKLMNOPQRSTUVWXYZ'' ''abcdefghijklmnopqrstuvwxyz'') c of
                 Some l \<Rightarrow> l | None \<Rightarrow> c) s"

definition excluded_tags :: "string list" where
  "excluded_tags = [''script'', ''style'', ''noscript'', ''svg'', ''canvas'']"

text \<open>
  \<open>extractTextRecursive\<close> with its loop over \<open>element.childNodes\<close>; \<open>textParts\<close> is the
  array being filled. The extractor object is threaded through because \<open>cleanText\<close>
  writes the cache.
\<close>

fun extractTextRecursive :: "BaseExtractor \<Rightarrow> element \<Rightarrow> jsstring \<times> BaseExtractor"
  and childNodes_loop :: "BaseExtractor \<Rightarrow> jsstring list \<Rightarrow> node list \<Rightarrow> jsstring list \<times> BaseExtractor"
where
  "extractTextRecursive this (Element p ch) =
     (let (textParts, this1) = childNodes_loop this [] ch
      in cleanText this1 (join textParts))"
| "childNodes_loop this textParts [] = (textParts, this)"
| "childNodes_loop this textParts (TextNode t # ns) =
     (let text = trim t
      in childNodes_loop this (if text \<noteq> [] then textParts @ [text] else textParts) ns)"
| "childNodes_loop this textParts (ElementNode el # ns) =
     (if toLowerCase (tagName (props el)) \<in> set excluded_tags
      then childNodes_loop this textParts ns
      else (let (childText, this1) = extractTextRecursive this el
            in childNodes_loop this1 (if childText \<noteq> [] then textParts @ [childText] else textParts) ns))"
| "childNodes_loop this textParts (OtherNode # ns) = childNodes_loop this textParts ns"

text \<open>
  The \<open>acceptNode\<close> filter of the tree walker: it follows \<open>parentElement\<close> from the text
  node to the top of the document. The argument is that chain of elements, nearest first.
\<close>

fun acceptNode :: "element list \<Rightarrow> bool" where
  "acceptNode [] = True"
| "acceptNode (current # up) =
     (if toLowerCase (tagName (props current)) \<in> set excluded_tags then False else acceptNode up)"

text \<open>
  The text nodes that \<open>walker.nextNode()\<close> returns, in document order. With
  \<open>NodeFilter.SHOW_TEXT\<close> elements are never shown and never rejected, so the walker
  descends into every element and asks the filter for every text node. \<open>anc\<close> is the
  chain of element ancestors of the nodes in the list.
\<close>

fun walker_nodes :: "element list \<Rightarrow> node list \<Rightarrow> jsstring list" where
  "walker_nodes anc [] = []"
| "walker_nodes anc (TextNode t # ns) = (if acceptNode anc then [t] else []) @ walker_nodes anc ns"
| "walker_nodes anc (ElementNode (Element p ch) # ns) =
     walker_nodes (Element p ch # anc) ch @ walker_nodes anc ns"
| "walker_nodes anc (OtherNode # ns) = walker_nodes anc ns"

text \<open>An element together with the chain of its ancestors in the document.\<close>

type_synonym located = "element list \<times> element"

text \<open>
  The \<open>try\<close> block of \<open>extractTextFromElement\<close>: it returns the cleaned join of the
  accepted, trimmed, non-empty text nodes when that join is not empty, and otherwise
  (\<open>None\<close>) leaves the block without returning.
\<close>

definition treeWalker_path :: "BaseExtractor \<Rightarrow> located \<Rightarrow> (jsstring \<times> BaseExtractor) option" where
  "treeWalker_path this le =
     (case le of (anc, element) \<Rightarrow>
      let textParts = filter (\<lambda>text. text \<noteq> [])
                        (map trim (walker_nodes (element # anc) (childNodes element)));
          result = join textParts
      in if length result > 0 then Some (cleanText this result) else None)"

text \<open>
  \<open>treeWalker\<close> says whether \<open>document.createTreeWalker\<close> works in the host; when it
  throws, the \<open>catch\<close> block is empty. In both cases a \<open>try\<close> block that has not returned
  is followed by the recursive walk.
\<close>

definition extractTextFromElement :: "bool \<Rightarrow> BaseExtractor \<Rightarrow> located \<Rightarrow> jsstring \<times> BaseExtractor" where
  "extractTextFromElement treeWalker this le =
     (case (if treeWalker then treeWalker_path this le else None) of
        Some returned \<Rightarrow> returned
      | None \<Rightarrow> extractTextRecursive this (snd le))"

section \<open>Documents and selectors\<close>

text \<open>
  The document: \<open>window.location.href\<close>, \<open>document.title\<close>, the tree below
  \<open>document.documentElement\<close>, and whether \<open>document.createTreeWalker\<close> works.
\<close>

record document =
  location_href :: string
  doc_title :: string
  documentElement :: element
  createTreeWalker_ok :: bool

text \<open>The element descendants of a list of sibling nodes in tree order, each with its ancestors.\<close>

fun descendants :: "element list \<Rightarrow> node list \<Rightarrow> located list" where
  "descendants anc [] = []"
| "descendants anc (ElementNode (Element p ch) # ns) =
     (anc, Element p ch) # descendants (Element p ch # anc) ch @ descendants anc ns"
| "descendants anc (TextNode t # ns) = descendants anc ns"
| "descendants anc (OtherNode # ns) = descendants anc ns"

text \<open>
  \<open>querySelectorAll\<close> and \<open>querySelector\<close> return, in tree order, all or the first of the
  elements that match; on an element they search its descendants only. \<open>closest\<close> searches
  the element itself and then its ancestors.
\<close>

definition selector_matches :: "string \<Rightarrow> located \<Rightarrow> bool" where
  "selector_matches selector le = (selector \<in> set (matches (props (snd le))))"

definition querySelectorAll :: "document \<Rightarrow> string \<Rightarrow> located list" where
  "querySelectorAll doc selector =
     filter (selector_matches selector) (descendants [] [ElementNode (documentElement doc)])"

definition querySelector :: "document \<Rightarrow> string \<Rightarrow> located option" where
  "querySelector doc selector =
     find (selector_matches selector) (descendants [] [ElementNode (documentElement doc)])"

definition element_querySelector :: "located \<Rightarrow> string \<Rightarrow> located option" where
  "element_querySelector le selector =
     find (selector_matches selector) (descendants (snd le # fst le) (childNodes (snd le)))"

definition closest :: "located \<Rightarrow> string \<Rightarrow> element option" where
  "closest le selector = find (\<lambda>a. selector \<in> set (matches (props a))) (snd le # fst le)"

definition href_of :: "located option \<Rightarrow> string option" where
  "href_of el = (case el of None \<Rightarrow> None | Some le \<Rightarrow> href (props (snd le)))"

section \<open>Extracted items (src/types.ts)\<close>

text \<open>
  \<open>ContentItem\<close> and \<open>Content\<close>. The fields \<open>id\<close> and \<open>type\<close> carry a prime because the plain
  names are taken in HOL. Every extractor sets \<open>textContent\<close>, so it is no option here;
  \<open>element\<close> is the DOM reference, modelled by the element it points to.
\<close>

datatype item_type = Post | Comment

record ContentItem =
  id' :: jsstring
  element :: element
  URL :: "string option"
  textContent :: jsstring
  htmlContent :: "string option"
  type' :: item_type
  selected :: bool

record Content =
  pageURL :: string
  title :: string
  items :: "ContentItem list"

text \<open>The state that a \<open>forEach\<close> callback reads and writes: \<open>content.items\<close> and \<open>this\<close>.\<close>

type_synonym extraction_state = "ContentItem list \<times> BaseExtractor"

definition title_or :: "document \<Rightarrow> string \<Rightarrow> string" where
  "title_or doc fallback = (if doc_title doc = [] then fallback else doc_title doc)"

section \<open>Selector tables (src/constants.ts)\<close>

definition REDDIT_POST :: string where "REDDIT_POST = ''[slot=\"text-body\"]''"
definition REDDIT_COMMENTS :: string where "REDDIT_COMMENTS = ''[slot=\"comment\"]''"
definition HACKER_NEWS_POST :: string where "HACKER_NEWS_POST = ''.toptext''"
definition HACKER_NEWS_POST_ID :: string where "HACKER_NEWS_POST_ID = ''.subtext span.age > a''"
definition HACKER_NEWS_COMMENTS :: string where "HACKER_NEWS_COMMENTS = ''.commtext''"
definition HACKER_NEWS_COMMENT_ID :: string where "HACKER_NEWS_COMMENT_ID = ''.comhead span.age > a''"
definition HACKER_NEWS_COMMENT_TREE :: string where "HACKER_NEWS_COMMENT_TREE = ''.comment-tree .comtr''"
definition HACKER_NEWS_STORY_ITEM :: string where "HACKER_NEWS_STORY_ITEM = ''.athing''"
definition HACKER_NEWS_TITLE_LINK :: string where "HACKER_NEWS_TITLE_LINK = ''.titleline > a''"
definition TWITTER_TWEET :: string where "TWITTER_TWEET = ''[data-testid=\"tweetText\"]''"
definition TWITTER_TWEET_ARTICLE :: string where "TWITTER_TWEET_ARTICLE = ''article[data-testid=\"tweet\"]''"

section \<open>Extraction strategies\<close>

text \<open>
  The loop shared by the generic and the Twitter extractor: the first selector of the list
  with at least one match supplies the elements, and the loop breaks.
\<close>

fun first_matching_selector :: "document \<Rightarrow> string list \<Rightarrow> located list" where
  "first_matching_selector doc [] = []"
| "first_matching_selector doc (selector # rest) =
     (let elements = querySelectorAll doc selector
      in if length elements > 0 then elements else first_matching_selector doc rest)"

subsection \<open>GenericExtractor (src/extractors/generic.ts)\<close>

definition contentSelectors :: "string list" where
  "contentSelectors =
     [''article'', ''main'', ''[role=\"main\"]'', ''.content'', ''#content'', ''.post'', ''.entry-content'']"

text \<open>
  The fallback \<open>Array.from(paragraphs).filter(p => isElementVisible(p) && extractTextFromElement(p).length > 50)\<close>;
  the text is extracted only for visible paragraphs.
\<close>

fun paragraph_filter :: "bool \<Rightarrow> BaseExtractor \<Rightarrow> located list \<Rightarrow> located list \<times> BaseExtractor" where
  "paragraph_filter tw this [] = ([], this)"
| "paragraph_filter tw this (p # ps) =
     (if isElementVisible (snd p)
      then (let (text, this1) = extractTextFromElement tw this p;
                (kept, this2) = paragraph_filter tw this1 ps
            in (if length text > 50 then p # kept else kept, this2))
      else paragraph_filter tw this ps)"

text \<open>The callback of \<open>foundElements.forEach\<close>.\<close>

definition generic_forEach :: "bool \<Rightarrow> located \<Rightarrow> extraction_state \<Rightarrow> extraction_state" where
  "generic_forEach tw el st =
     (case st of (acc, this) \<Rightarrow>
      let (text, this1) = extractTextFromElement tw this el
      in if text \<noteq> [] \<and> length text > 20
         then (acc @ [\<lparr>id' = generateId text, element = snd el, URL = None,
                          textContent = text,
                          htmlContent = (if includeHtml this then Some (innerHTML (props (snd el))) else None),
                          type' = Post, selected = False\<rparr>], this1)
         else (acc, this1))"

definition GenericExtractor_extract :: "BaseExtractor \<Rightarrow> document \<Rightarrow> Content \<times> BaseExtractor" where
  "GenericExtractor_extract this doc =
     (let tw = createTreeWalker_ok doc;
          foundElements = first_matching_selector doc contentSelectors;
          (foundElements, this1) =
             (if length foundElements = 0
              then paragraph_filter tw this (querySelectorAll doc ''p'')
              else (foundElements, this));
          (acc, this2) = fold (generic_forEach tw) foundElements ([], this1)
      in (\<lparr>pageURL = location_href doc, title = title_or doc ''Untitled Page'', items = acc\<rparr>, this2))"

subsection \<open>RedditExtractor\<close>




subsection \<open>TwitterExtractor\<close>

definition tweetSelectors :: "string list" where
  "tweetSelectors =
     [TWITTER_TWEET_ARTICLE, TWITTER_TWEET, ''article[role=\"article\"]'', ''.tweet-text'', ''.twitter-tweet'']"

definition tweet_textElement :: "located \<Rightarrow> located" where
  "tweet_textElement tweetEl =
     (case element_querySelector tweetEl TWITTER_TWEET of
        Some t \<Rightarrow> t
      | None \<Rightarrow> (case element_querySelector tweetEl ''.tweet-text'' of
                   Some t \<Rightarrow> t
                 | None \<Rightarrow> tweetEl))"

definition twitter_forEach :: "bool \<Rightarrow> located \<Rightarrow> extraction_state \<Rightarrow> extraction_state" where
  "twitter_forEach tw tweetEl st =
     (case st of (acc, this) \<Rightarrow>
      if isElementVisible (snd tweetEl)
      then (let textElement = tweet_textElement tweetEl;
                (text, this1) = extractTextFromElement tw this textElement
            in if text \<noteq> [] \<and> length text > 5
               then (acc @ [\<lparr>id' = generateId text, element = snd tweetEl, URL = None,
                                textContent = text,
                                htmlContent = (if includeHtml this then Some (innerHTML (props (snd tweetEl))) else None),
                                type' = Post, selected = False\<rparr>], this1)
               else (acc, this1))
      else (acc, this))"

definition twitter_article_forEach :: "bool \<Rightarrow> located \<Rightarrow> extraction_state \<Rightarrow> extraction_state" where
  "twitter_article_forEach tw articleEl st =
     (case st of (acc, this) \<Rightarrow>
      if isElementVisible (snd articleEl)
      then (let (text, this1) = extractTextFromElement tw this articleEl
            in if text \<noteq> [] \<and> length text > 20 \<and> length text < 2000
               then (acc @ [\<lparr>id' = generateId text, element = snd articleEl, URL = None,
                                textContent = text,
                                htmlContent = (if includeHtml this then Some (innerHTML (props (snd articleEl))) else None),
                                type' = Post, selected = False\<rparr>], this1)
               else (acc, this1))
      else (acc, this))"

definition TwitterExtractor_extract :: "BaseExtractor \<Rightarrow> document \<Rightarrow> Content \<times> BaseExtractor" where
  "TwitterExtractor_extract this doc =
     (let tw = createTreeWalker_ok doc;
          tweetElements = first_matching_selector doc tweetSelectors;
          st1 = fold (twitter_forEach tw) tweetElements ([], this);
          (acc, this2) =
             (if length (fst st1) = 0
              then fold (twitter_article_forEach tw) (querySelectorAll doc ''article'') st1
              else st1)
      in (\<lparr>pageURL = location_href doc, title = title_or doc ''Twitter/X'', items = acc\<rparr>, this2))"

subsection \<open>HackerNewsExtractor\<close>







section \<open>Specification-level definitions\<close>

subsection \<open>Text normalisation in the words of the specification\<close>

text \<open>
  The maximal runs of a string with respect to a predicate: consecutive blocks on which
  the predicate keeps one truth value. Concatenating them gives the string back.
\<close>

function runs :: "('a \<Rightarrow> bool) \<Rightarrow> 'a list \<Rightarrow> 'a list list" where
  "runs P [] = []"
| "runs P (x # xs) =
     (x # takeWhile (\<lambda>y. P y = P x) xs) # runs P (dropWhile (\<lambda>y. P y = P x) xs)"
  by pat_completeness auto
termination
  by (relation "measure (\<lambda>(P, xs). length xs)") (auto simp: length_dropWhile_le less_Suc_eq_le)

text \<open>Every run of space and tab characters becomes a single space; all else stays.\<close>

definition squeeze_space_tab_runs_spec :: "jsstring \<Rightarrow> jsstring" where
  "squeeze_space_tab_runs_spec s =
     concat (map (\<lambda>r. if is_space_tab (hd r) then [SP] else r) (runs is_space_tab s))"

text \<open>
  In a run of white space with two or more newlines, the part from the first newline to
  the last one becomes exactly two newlines; what precedes the first and follows the last
  newline of the run stays, and so does every other run.
\<close>

definition collapse_blank_run :: "jsstring \<Rightarrow> jsstring" where
  "collapse_blank_run r =
     (if is_ws (hd r) \<and> 2 \<le> count_list r NL
      then takeWhile (\<lambda>c. c \<noteq> NL) r @ [NL, NL] @ rev (takeWhile (\<lambda>c. c \<noteq> NL) (rev r))
      else r)"

definition collapse_blank_lines_spec :: "jsstring \<Rightarrow> jsstring" where
  "collapse_blank_lines_spec s = concat (map collapse_blank_run (runs is_ws s))"

text \<open>A non-empty string without white space at either end.\<close>

definition trimmed :: "jsstring \<Rightarrow> bool" where
  "trimmed s \<longleftrightarrow> s \<noteq> [] \<and> \<not> is_ws (hd s) \<and> \<not> is_ws (last s)"

text \<open>No tab and no two adjacent spaces: the strings that the first replacement leaves alone.\<close>

fun st_norm :: "jsstring \<Rightarrow> bool" where
  "st_norm [] = True"
| "st_norm [c] = (c \<noteq> TAB)"
| "st_norm (c # d # cs) = (c \<noteq> TAB \<and> \<not> (c = SP \<and> d = SP) \<and> st_norm (d # cs))"

text \<open>
  The invariant of the private cache: every entry maps a raw text to its cleaned form.
  It holds for a new extractor and is kept by every method.
\<close>

definition cache_ok :: "BaseExtractor \<Rightarrow> bool" where
  "cache_ok this = list_all (\<lambda>(k, v). v = cleaned k) (textCache this)"

subsection \<open>The rolling hash in the words of the specification\<close>

text \<open>
  \<open>h = (h * 31 + c) mod 2^32\<close> over the code units in sequence, starting from 0, as an
  unsigned residue; \<open>signed32\<close> reads a residue as a two's-complement 32-bit integer, the
  value whose absolute value is printed. \<open>decimal_value\<close> reads a string of decimal digits.
\<close>

definition rolling_hash_spec :: "jsstring \<Rightarrow> int" where
  "rolling_hash_spec s = foldl (\<lambda>h c. (h * 31 + uint c) mod 2 ^ 32) 0 s"

definition signed32 :: "int \<Rightarrow> int" where
  "signed32 u = (if u < 2 ^ 31 then u else u - 2 ^ 32)"

definition decimal_value :: "jsstring \<Rightarrow> nat" where
  "decimal_value ds = foldl (\<lambda>a d. 10 * a + (unat d - 48)) 0 ds"

definition is_digit :: "jschar \<Rightarrow> bool" where
  "is_digit d = (48 \<le> d \<and> d \<le> 57)"

subsection \<open>Visibility in the words of the specification\<close>

text \<open>
  The decision order of the specification: rules 1 to 4, each with the verdict "not
  visible", tried in order, the first that applies wins; when none applies the computed
  style decides, and a failing style query means visible.
\<close>

fun first_match :: "(('a \<Rightarrow> bool) \<times> 'b) list \<Rightarrow> 'a \<Rightarrow> 'b option" where
  "first_match [] x = None"
| "first_match ((applies, verdict) # rules) x =
     (if applies x then Some verdict else first_match rules x)"

definition visibility_rules_spec :: "((element_props \<Rightarrow> bool) \<times> bool) list" where
  "visibility_rules_spec =
     [(\<lambda>e. \<not> isConnected e, False),
      (\<lambda>e. offsetParent_null e \<and> style_display e = ''none'', False),
      (\<lambda>e. style_display e = ''none'' \<or> style_visibility e = ''hidden'', False),
      (\<lambda>e. rect_width e = 0 \<or> rect_height e = 0, False)]"

definition isVisible_spec :: "element_props \<Rightarrow> bool" where
  "isVisible_spec e =
     (case first_match visibility_rules_spec e of
        Some verdict \<Rightarrow> verdict
      | None \<Rightarrow>
          (case computedStyle e of
             None \<Rightarrow> True
           | Some (display, visibility) \<Rightarrow> \<not> (display = ''none'' \<or> visibility = ''hidden'')))"

subsection \<open>Text collection in the words of the specification\<close>

text \<open>
  The text leaves below a list of sibling nodes in document order, each with the tag names
  of the elements between it and the root of the walk (the root itself is not on the path).
\<close>

fun text_leaves :: "string list \<Rightarrow> node list \<Rightarrow> (string list \<times> jsstring) list" where
  "text_leaves path [] = []"
| "text_leaves path (TextNode t # ns) = (path, t) # text_leaves path ns"
| "text_leaves path (ElementNode (Element p ch) # ns) =
     text_leaves (tagName p # path) ch @ text_leaves path ns"
| "text_leaves path (OtherNode # ns) = text_leaves path ns"

definition path_allowed :: "string list \<Rightarrow> bool" where
  "path_allowed path = list_all (\<lambda>tag. toLowerCase tag \<notin> set excluded_tags) path"

text \<open>
  The fragments of a subtree: the trimmed, non-empty texts of the leaves that have no
  excluded element between them and the root, in document order.
\<close>

definition fragments_spec :: "element \<Rightarrow> jsstring list" where
  "fragments_spec el =
     filter (\<lambda>f. f \<noteq> [])
       (map (\<lambda>leaf. trim (snd leaf))
          (filter (\<lambda>leaf. path_allowed (fst leaf)) (text_leaves [] (childNodes el))))"

definition collectText_spec :: "element \<Rightarrow> jsstring" where
  "collectText_spec el = cleaned (join (fragments_spec el))"

text \<open>Auxiliary functions for the proofs: the fragments by pruning, and a join that composes.\<close>

fun frags :: "node list \<Rightarrow> jsstring list" where
  "frags [] = []"
| "frags (TextNode t # ns) = (if trim t \<noteq> [] then [trim t] else []) @ frags ns"
| "frags (ElementNode (Element p ch) # ns) =
     (if toLowerCase (tagName p) \<in> set excluded_tags then [] else frags ch) @ frags ns"
| "frags (OtherNode # ns) = frags ns"

fun spaced :: "jsstring list \<Rightarrow> jsstring" where
  "spaced [] = []"
| "spaced (x # xs) = SP # x @ spaced xs"

section \<open>Example elements and documents\<close>

text \<open>
  A connected, rendered element without inline styles, with the given tag name and the
  given selectors; the examples below change single fields of it.
\<close>

definition visible_props :: "string \<Rightarrow> string list \<Rightarrow> element_props" where
  "visible_props tag sels =
     \<lparr>tagName = tag, matches = sels, isConnected = True, offsetParent_null = False,
      style_display = [], style_visibility = [], rect_width = 100, rect_height = 50,
      computedStyle = Some (''block'', ''visible''), href = None,
      innerHTML = [], outerHTML = []\<rparr>"

text \<open>A \<open>div\<close> with a text node, a \<open>script\<close> child and a paragraph.\<close>

definition example_div :: element where
  "example_div =
     Element (visible_props ''DIV'' [])
       [TextNode (js '' Hello   ''),
        ElementNode (Element (visible_props ''SCRIPT'' []) [TextNode (js ''alert(1)'')]),
        ElementNode (Element (visible_props ''P'' []) [TextNode (js ''wor  ld'')])]"

text \<open>
  A \<open>canvas\<close> element of class \<open>content\<close> with its fallback text, taken as the root of the
  extraction.
\<close>

definition example_canvas :: element where
  "example_canvas =
     Element (visible_props ''CANVAS'' [''.content'']) [TextNode (js ''Canvas is not supported.'')]"

text \<open>An element hidden by an inline \<open>display: none\<close>, as a browser reports it.\<close>

definition hidden_props :: "string \<Rightarrow> string list \<Rightarrow> element_props" where
  "hidden_props tag sels =
     (visible_props tag sels)\<lparr>offsetParent_null := True, style_display := ''none'',
        rect_width := 0, rect_height := 0, computedStyle := Some (''none'', ''visible'')\<rparr>"

text \<open>An element without inline styles whose bounding box has zero width and height.\<close>

definition collapsed_props :: "string \<Rightarrow> string list \<Rightarrow> element_props" where
  "collapsed_props tag sels = (visible_props tag sels)\<lparr>rect_width := 0, rect_height := 0\<rparr>"

definition page :: "node list \<Rightarrow> document" where
  "page body =
     \<lparr>location_href = ''https://example.com/thread'', doc_title = ''Example'',
      documentElement = Element (visible_props ''HTML'' []) body, createTreeWalker_ok = True\<rparr>"

text \<open>A page with one article hidden by an inline style and one article of zero size.\<close>

definition example_hidden_articles :: document where
  "example_hidden_articles =
     page [ElementNode (Element (hidden_props ''ARTICLE'' [''article''])
             [TextNode (js ''This hidden article is long.'')]),
           ElementNode (Element (collapsed_props ''ARTICLE'' [''article''])
             [TextNode (js ''This collapsed article is long.'')])]"


text \<open>A page whose only article is too short, followed by a long visible paragraph.\<close>

definition example_short_article :: document where
  "example_short_article =
     page [ElementNode (Element (visible_props ''ARTICLE'' [''article'']) [TextNode (js ''Short'')]),
           ElementNode (Element (visible_props ''P'' [''p''])
             [TextNode (js ''A visible paragraph that has clearly more than fifty characters.'')])]"

text \<open>A page with an article and, later in the priority order, an element of class \<open>content\<close>.\<close>

definition example_article_and_content :: document where
  "example_article_and_content =
     page [ElementNode (Element (visible_props ''ARTICLE'' [''article''])
             [TextNode (js ''Article text, long enough.'')]),
           ElementNode (Element (visible_props ''DIV'' [''.content''])
             [TextNode (js ''Content text, long enough.'')])]"

text \<open>
  A page with a tweet-text element (second selector group) and an element of class
  \<open>tweet-text\<close> (fourth group); no element matches the first group.
\<close>

definition example_tweets :: document where
  "example_tweets =
     page [ElementNode (Element (visible_props ''DIV'' [TWITTER_TWEET])
             [TextNode (js ''Tweet text one.'')]),
           ElementNode (Element (visible_props ''DIV'' [''.tweet-text''])
             [TextNode (js ''Legacy tweet text.'')])]"

text \<open>A page without any main-content element: a visible and a hidden long paragraph.\<close>

definition example_paragraphs :: document where
  "example_paragraphs =
     page [ElementNode (Element (visible_props ''P'' [''p''])
             [TextNode (js ''A visible paragraph that has clearly more than fifty characters.'')]),
           ElementNode (Element (hidden_props ''P'' [''p''])
             [TextNode (js ''A hidden paragraph that has also more than fifty characters.'')])]"

subsection \<open>The strategies in terms of pure filters\<close>

text \<open>
  The items that the callbacks build, as functions of the candidate element and of the
  text collected from it; \<open>incl\<close> is the \<open>includeHtml\<close> flag of the extractor.
\<close>

definition generic_item :: "bool \<Rightarrow> located \<Rightarrow> ContentItem" where
  "generic_item incl le =
     \<lparr>id' = generateId (collectText_spec (snd le)), element = snd le, URL = None,
      textContent = collectText_spec (snd le),
      htmlContent = (if incl then Some (innerHTML (props (snd le))) else None),
      type' = Post, selected = False\<rparr>"

definition tweet_item :: "bool \<Rightarrow> located \<Rightarrow> ContentItem" where
  "tweet_item incl tweetEl =
     \<lparr>id' = generateId (collectText_spec (snd (tweet_textElement tweetEl))), element = snd tweetEl,
      URL = None,
      textContent = collectText_spec (snd (tweet_textElement tweetEl)),
      htmlContent = (if incl then Some (innerHTML (props (snd tweetEl))) else None),
      type' = Post, selected = False\<rparr>"

text \<open>The candidates of the generic extractor: the first matching group, or the paragraph fallback.\<close>

definition generic_candidates :: "document \<Rightarrow> located list" where
  "generic_candidates doc =
     (if first_matching_selector doc contentSelectors = []
      then filter (\<lambda>p. isElementVisible (snd p) \<and> 50 < length (collectText_spec (snd p)))
             (querySelectorAll doc ''p'')
      else first_matching_selector doc contentSelectors)"

text \<open>The two passes of the Twitter extractor.\<close>

definition twitter_primary_items :: "bool \<Rightarrow> document \<Rightarrow> ContentItem list" where
  "twitter_primary_items incl doc =
     map (tweet_item incl)
       (filter (\<lambda>t. isElementVisible (snd t)
                   \<and> 5 < length (collectText_spec (snd (tweet_textElement t))))
          (first_matching_selector doc tweetSelectors))"

definition twitter_fallback_items :: "bool \<Rightarrow> document \<Rightarrow> ContentItem list" where
  "twitter_fallback_items incl doc =
     map (generic_item incl)
       (filter (\<lambda>a. isElementVisible (snd a)
                   \<and> 20 < length (collectText_spec (snd a))
                   \<and> length (collectText_spec (snd a)) < 2000)
          (querySelectorAll doc ''article''))"

section \<open>Properties of the text normaliser\<close>

lemma is_space_tab_ws: "is_space_tab c \<Longrightarrow> is_ws c"
  by (auto simp: is_space_tab_def is_ws_def)

lemma NL_ws [simp]: "is_ws NL"
  by (simp add: is_ws_def)

lemma NL_not_st [simp]: "\<not> is_space_tab NL"
  by (simp add: is_space_tab_def)

lemma not_ws_not_NL: "\<not> is_ws c \<Longrightarrow> c \<noteq> NL"
  by auto

lemma not_ws_not_st: "\<not> is_ws c \<Longrightarrow> \<not> is_space_tab c"
  using is_space_tab_ws by blast

lemma concat_runs: "concat (runs P xs) = xs"
  by (induction P xs rule: runs.induct) simp_all

lemma r1_copy: "\<forall>c\<in>set xs. \<not> is_space_tab c \<Longrightarrow>
  replace_space_tab_runs (xs @ ys) = xs @ replace_space_tab_runs ys"
  by (induction xs) simp_all

lemma r1_spec: "replace_space_tab_runs s = squeeze_space_tab_runs_spec s"
proof (induction "is_space_tab" s rule: runs.induct)
  case 1
  show ?case by (simp add: squeeze_space_tab_runs_spec_def)
next
  case (2 x xs)
  show ?case
  proof (cases "is_space_tab x")
    case True
    then have eq: "(\<lambda>y. is_space_tab y = is_space_tab x) = is_space_tab" by auto
    from True 2 show ?thesis
      by (simp add: squeeze_space_tab_runs_spec_def eq)
  next
    case False
    then have eq: "(\<lambda>y. is_space_tab y = is_space_tab x) = (\<lambda>y. \<not> is_space_tab y)" by auto
    have "replace_space_tab_runs xs =
          replace_space_tab_runs (takeWhile (\<lambda>y. \<not> is_space_tab y) xs @ dropWhile (\<lambda>y. \<not> is_space_tab y) xs)"
      by simp
    also have "\<dots> = takeWhile (\<lambda>y. \<not> is_space_tab y) xs
                  @ replace_space_tab_runs (dropWhile (\<lambda>y. \<not> is_space_tab y) xs)"
      by (rule r1_copy) (auto dest: set_takeWhileD)
    finally show ?thesis using False 2
      by (simp add: squeeze_space_tab_runs_spec_def eq)
  qed
qed


lemma r2_copy: "\<forall>c\<in>set xs. c \<noteq> NL \<Longrightarrow>
  replace_blank_lines (xs @ ys) = xs @ replace_blank_lines ys"
  by (induction xs) simp_all

lemma drop_rev_takeWhile:
  "drop (length w - length (takeWhile P (rev w))) w = rev (takeWhile P (rev w))"
proof -
  have "rev (dropWhile P (rev w)) @ rev (takeWhile P (rev w))
        = rev (takeWhile P (rev w) @ dropWhile P (rev w))"
    by (simp only: rev_append)
  also have "\<dots> = w" by simp
  finally have w: "w = rev (dropWhile P (rev w)) @ rev (takeWhile P (rev w))" by simp
  have len: "length (rev (dropWhile P (rev w))) = length w - length (takeWhile P (rev w))"
    by (simp add: length_dropWhile_le) (metis length_rev add_diff_cancel_left' length_append takeWhile_dropWhile_id)
  have "drop (length (rev (dropWhile P (rev w)))) (rev (dropWhile P (rev w)) @ rev (takeWhile P (rev w)))
        = rev (takeWhile P (rev w))" by simp
  with w len show ?thesis by simp
qed

lemma blank_match_le: "blank_match cs = Some m \<Longrightarrow> m \<le> length (takeWhile is_ws cs)"
  by (auto simp: blank_match_def Let_def split: if_splits)

lemma blank_match_cong:
  "takeWhile is_ws xs = takeWhile is_ws ys \<Longrightarrow> blank_match xs = blank_match ys"
  by (simp add: blank_match_def)

lemma takeWhile_ws_block:
  "\<forall>c\<in>set w. is_ws c \<Longrightarrow> rest = [] \<or> \<not> is_ws (hd rest) \<Longrightarrow> takeWhile is_ws (w @ rest) = w"
  by (cases rest) (auto simp: takeWhile_append2)

lemma r2_ws_block:
  assumes "\<forall>c\<in>set w. is_ws c" and "rest = [] \<or> \<not> is_ws (hd rest)"
  shows "replace_blank_lines (w @ rest) =
     (if 2 \<le> count_list w NL
      then takeWhile (\<lambda>c. c \<noteq> NL) w @ [NL, NL] @ rev (takeWhile (\<lambda>c. c \<noteq> NL) (rev w))
      else w) @ replace_blank_lines rest"
  using assms
proof (induction w)
  case Nil
  then show ?case by simp
next
  case (Cons c w)
  show ?case
  proof (cases "c = NL")
    case False
    have cnt: "2 \<le> count_list w NL \<Longrightarrow> NL \<in> set (rev w)"
      by (metis count_list_0_iff not_numeral_le_zero set_rev)
    from False Cons show ?thesis
      by (auto simp: takeWhile_append1 dest: cnt)
  next
    case True
    have run: "takeWhile is_ws (w @ rest) = w"
      using Cons.prems by (intro takeWhile_ws_block) auto
    show ?thesis
    proof (cases "NL \<in> set w")
      case in_w: True
      let ?post = "rev (takeWhile (\<lambda>c. c \<noteq> NL) (rev w))"
      let ?m = "length w - length (takeWhile (\<lambda>c. c \<noteq> NL) (rev w))"
      have bm: "blank_match (w @ rest) = Some ?m"
        using in_w by (simp add: blank_match_def run)
      have dr: "drop ?m (w @ rest) = ?post @ rest"
        by (simp add: drop_rev_takeWhile)
      have nonl: "\<forall>c\<in>set ?post. c \<noteq> NL"
        by (auto dest: set_takeWhileD)
      have "count_list w NL \<noteq> 0" using in_w by (simp add: count_list_0_iff)
      then have cnt: "2 \<le> count_list (c # w) NL"
        using True by simp
      have tw: "takeWhile (\<lambda>c. c \<noteq> NL) (rev w @ [NL]) = takeWhile (\<lambda>c. c \<noteq> NL) (rev w)"
        using in_w by (simp add: takeWhile_append1)
      have "replace_blank_lines ((c # w) @ rest) = NL # NL # replace_blank_lines (?post @ rest)"
        using True bm dr by simp
      also have "\<dots> = NL # NL # ?post @ replace_blank_lines rest"
        using nonl by (simp add: r2_copy)
      finally show ?thesis using cnt True tw by simp
    next
      case not_in: False
      have bm: "blank_match (w @ rest) = None"
        using not_in by (simp add: blank_match_def run)
      have "count_list w NL = 0" using not_in by (simp add: count_list_0_iff)
      moreover have "replace_blank_lines (w @ rest) = w @ replace_blank_lines rest"
        using not_in by (intro r2_copy) auto
      ultimately show ?thesis using True bm by simp
    qed
  qed
qed

lemma r2_spec: "replace_blank_lines s = collapse_blank_lines_spec s"
proof (induction "is_ws" s rule: runs.induct)
  case 1
  show ?case by (simp add: collapse_blank_lines_spec_def)
next
  case (2 x xs)
  show ?case
  proof (cases "is_ws x")
    case True
    then have eq: "(\<lambda>y. is_ws y = is_ws x) = is_ws" by auto
    let ?w = "x # takeWhile is_ws xs" and ?rest = "dropWhile is_ws xs"
    have "replace_blank_lines (?w @ ?rest) =
       (if 2 \<le> count_list ?w NL
        then takeWhile (\<lambda>c. c \<noteq> NL) ?w @ [NL, NL] @ rev (takeWhile (\<lambda>c. c \<noteq> NL) (rev ?w))
        else ?w) @ replace_blank_lines ?rest"
    proof (rule r2_ws_block)
      show "\<forall>c\<in>set ?w. is_ws c" using True by (auto dest: set_takeWhileD)
      show "?rest = [] \<or> \<not> is_ws (hd ?rest)" using hd_dropWhile [of is_ws xs] by blast
    qed
    moreover have "?w @ ?rest = x # xs" by simp
    ultimately have "replace_blank_lines (x # xs) = collapse_blank_run ?w @ replace_blank_lines ?rest"
      using True by (simp only: collapse_blank_run_def list.sel if_True simp_thms)
    then show ?thesis using 2 True
      by (simp add: collapse_blank_lines_spec_def eq)
  next
    case False
    then have eq: "(\<lambda>y. is_ws y = is_ws x) = (\<lambda>y. \<not> is_ws y)" by auto
    have "replace_blank_lines xs =
          replace_blank_lines (takeWhile (\<lambda>y. \<not> is_ws y) xs @ dropWhile (\<lambda>y. \<not> is_ws y) xs)"
      by simp
    also have "\<dots> = takeWhile (\<lambda>y. \<not> is_ws y) xs
                  @ replace_blank_lines (dropWhile (\<lambda>y. \<not> is_ws y) xs)"
      by (rule r2_copy) (auto dest: set_takeWhileD)
    finally show ?thesis using False 2
      by (auto simp add: collapse_blank_lines_spec_def eq collapse_blank_run_def)
  qed
qed


lemma st_norm_Cons:
  "st_norm (c # z) \<longleftrightarrow> c \<noteq> TAB \<and> (z \<noteq> [] \<longrightarrow> \<not> (c = SP \<and> hd z = SP)) \<and> st_norm z"
  by (cases z) auto

lemma r1_hd: "xs \<noteq> [] \<Longrightarrow> \<not> is_space_tab (hd xs) \<Longrightarrow>
  replace_space_tab_runs xs \<noteq> [] \<and> hd (replace_space_tab_runs xs) = hd xs"
  by (cases xs) auto

lemma st_norm_r1: "st_norm (replace_space_tab_runs s)"
proof (induction s rule: replace_space_tab_runs.induct)
  case 1
  show ?case by simp
next
  case (2 c cs)
  show ?case
  proof (cases "is_space_tab c")
    case True
    let ?d = "dropWhile is_space_tab cs"
    have "?d \<noteq> [] \<Longrightarrow> hd (replace_space_tab_runs ?d) \<noteq> SP"
      using r1_hd [of ?d] hd_dropWhile [of is_space_tab cs]
      by (auto simp: is_space_tab_def)
    moreover have "?d = [] \<Longrightarrow> replace_space_tab_runs ?d = []"
      by (simp only: replace_space_tab_runs.simps)
    ultimately show ?thesis using True 2 by (auto simp: st_norm_Cons)
  next
    case False
    then show ?thesis using 2 by (auto simp: st_norm_Cons is_space_tab_def)
  qed
qed

lemma st_norm_r1_id: "st_norm s \<Longrightarrow> replace_space_tab_runs s = s"
proof (induction s)
  case Nil
  show ?case by simp
next
  case (Cons c cs)
  then have cs: "st_norm cs" and IH: "replace_space_tab_runs cs = cs"
    by (auto simp: st_norm_Cons)
  show ?case
  proof (cases "is_space_tab c")
    case True
    with Cons.prems have "cs = [] \<or> \<not> is_space_tab (hd cs)"
      by (cases cs) (auto simp: is_space_tab_def st_norm_Cons)
    then have "dropWhile is_space_tab cs = cs" by (cases cs) auto
    with True Cons.prems IH show ?thesis by (auto simp: st_norm_Cons is_space_tab_def)
  next
    case False
    with IH show ?thesis by simp
  qed
qed

lemma st_norm_append: "st_norm (xs @ ys) \<Longrightarrow> st_norm xs \<and> st_norm ys"
proof (induction xs)
  case Nil
  then show ?case by simp
next
  case (Cons x xs)
  then show ?case by (cases xs) (auto simp: st_norm_Cons)
qed

lemma r2_hd: "replace_blank_lines (c # cs) \<noteq> [] \<and> hd (replace_blank_lines (c # cs)) = c"
  by (auto split: option.splits)

lemma st_norm_drop: "st_norm xs \<Longrightarrow> st_norm (drop m xs)"
  using st_norm_append [of "take m xs" "drop m xs"] by simp

lemma st_norm_r2: "st_norm s \<Longrightarrow> st_norm (replace_blank_lines s)"
proof (induction s rule: replace_blank_lines.induct)
  case 1
  show ?case by simp
next
  case (2 c cs)
  from "2.prems" have cs: "st_norm cs" and c: "c \<noteq> TAB"
    by (auto simp: st_norm_Cons)
  have hdeq: "cs \<noteq> [] \<Longrightarrow> hd (replace_blank_lines cs) = hd cs"
    using r2_hd by (cases cs) auto
  have keep: "st_norm (c # replace_blank_lines cs)" if "st_norm (replace_blank_lines cs)"
  proof (cases "cs = []")
    case True
    then show ?thesis using c by simp
  next
    case False
    then show ?thesis using that c "2.prems" hdeq
      by (cases cs) (auto simp: st_norm_Cons)
  qed
  show ?case
  proof (cases "c = NL")
    case False
    with 2 cs keep show ?thesis by simp
  next
    case True
    show ?thesis
    proof (cases "blank_match cs")
      case None
      with True 2 cs keep show ?thesis by simp
    next
      case (Some m)
      have "st_norm (replace_blank_lines (drop m cs))"
        using 2(2) [OF True Some] cs st_norm_drop by blast
      then show ?thesis using True Some by (simp add: st_norm_Cons)
    qed
  qed
qed

lemma trim_decomp: "\<exists>p q. s = p @ trim s @ q"
proof -
  let ?t = "dropWhile is_ws s"
  have "rev (dropWhile is_ws (rev ?t)) @ rev (takeWhile is_ws (rev ?t))
        = rev (takeWhile is_ws (rev ?t) @ dropWhile is_ws (rev ?t))"
    by (simp only: rev_append)
  also have "\<dots> = ?t" by simp
  finally have "?t = trim s @ rev (takeWhile is_ws (rev ?t))" by (simp add: trim_def)
  moreover have "s = takeWhile is_ws s @ ?t" by simp
  ultimately show ?thesis by metis
qed

lemma st_norm_trim: "st_norm s \<Longrightarrow> st_norm (trim s)"
proof -
  assume a: "st_norm s"
  obtain p q where "s = p @ trim s @ q" using trim_decomp by blast
  with a have "st_norm (p @ trim s @ q)" by simp
  then show ?thesis using st_norm_append by blast
qed


lemma takeWhile_lt: "x \<in> set xs \<Longrightarrow> \<not> P x \<Longrightarrow> length (takeWhile P xs) < length xs"
  by (induction xs) auto

lemma drop_takeWhile_app:
  "m \<le> length (takeWhile P cs) \<Longrightarrow> drop m cs = drop m (takeWhile P cs) @ dropWhile P cs"
proof -
  assume "m \<le> length (takeWhile P cs)"
  then have "drop m (takeWhile P cs @ dropWhile P cs) = drop m (takeWhile P cs) @ dropWhile P cs"
    by (simp del: takeWhile_dropWhile_id)
  then show ?thesis by simp
qed

lemma takeWhile_neq_snoc: "x \<notin> set xs \<Longrightarrow> takeWhile (\<lambda>c. c \<noteq> x) (xs @ [x]) = xs"
  by (induction xs) auto

lemma takeWhile_ws_r2:
  "NL \<notin> set (takeWhile is_ws u) \<Longrightarrow> takeWhile is_ws (replace_blank_lines u) = takeWhile is_ws u"
  by (induction u) auto

lemma r2_idem: "replace_blank_lines (replace_blank_lines s) = replace_blank_lines s"
proof (induction s rule: replace_blank_lines.induct)
  case 1
  show ?case by simp
next
  case (2 c cs)
  show ?case
  proof (cases "c = NL")
    case False
    with 2 show ?thesis by simp
  next
    case True
    show ?thesis
    proof (cases "blank_match cs")
      case None
      then have "NL \<notin> set (takeWhile is_ws cs)"
        by (auto simp: blank_match_def Let_def split: if_splits)
      then have "takeWhile is_ws (replace_blank_lines cs) = takeWhile is_ws cs"
        by (rule takeWhile_ws_r2)
      then have "blank_match (replace_blank_lines cs) = None"
        using None by (simp add: blank_match_def)
      with True None 2 show ?thesis by simp
    next
      case (Some m)
      let ?u = "drop m cs" and ?run = "takeWhile is_ws cs"
      let ?post = "rev (takeWhile (\<lambda>c. c \<noteq> NL) (rev ?run))"
      from Some have m: "m = length ?run - length (takeWhile (\<lambda>c. c \<noteq> NL) (rev ?run))"
        by (auto simp: blank_match_def Let_def split: if_splits)
      have "drop m cs = drop m ?run @ dropWhile is_ws cs"
        using blank_match_le [OF Some] by (rule drop_takeWhile_app)
      also have "drop m ?run = ?post" unfolding m by (rule drop_rev_takeWhile)
      finally have u: "?u = ?post @ dropWhile is_ws cs" .
      have post_ws: "\<forall>c\<in>set ?post. is_ws c"
        by (auto dest!: set_takeWhileD)
      have post_nl: "NL \<notin> set ?post"
        by (auto dest: set_takeWhileD)
      have "takeWhile is_ws ?u = ?post"
        unfolding u using post_ws hd_dropWhile [of is_ws cs]
        by (intro takeWhile_ws_block) auto
      with post_nl have "NL \<notin> set (takeWhile is_ws ?u)" by simp
      then have tw: "takeWhile is_ws (replace_blank_lines ?u) = takeWhile is_ws ?u"
        by (rule takeWhile_ws_r2)
      with \<open>NL \<notin> set (takeWhile is_ws ?u)\<close>
      have "blank_match (NL # replace_blank_lines ?u) = Some 1"
        using takeWhile_neq_snoc [of NL "rev (takeWhile is_ws ?u)"]
        by (simp add: blank_match_def)
      then have "replace_blank_lines (NL # NL # replace_blank_lines ?u)
                 = NL # NL # replace_blank_lines (replace_blank_lines ?u)"
        by simp
      with True Some 2(2) [OF True Some] show ?thesis by simp
    qed
  qed
qed

lemma r2_length: "length (replace_blank_lines s) \<le> length s"
proof (induction s rule: replace_blank_lines.induct)
  case 1
  show ?case by simp
next
  case (2 c cs)
  show ?case
  proof (cases "c = NL")
    case False
    with 2 show ?thesis by simp
  next
    case True
    show ?thesis
    proof (cases "blank_match cs")
      case None
      with True 2 show ?thesis by simp
    next
      case (Some m)
      from Some have "NL \<in> set (takeWhile is_ws cs)"
        and m: "m = length (takeWhile is_ws cs) - length (takeWhile (\<lambda>c. c \<noteq> NL) (rev (takeWhile is_ws cs)))"
        by (auto simp: blank_match_def Let_def split: if_splits)
      then have "NL \<in> set (rev (takeWhile is_ws cs))" by simp
      then have "length (takeWhile (\<lambda>c. c \<noteq> NL) (rev (takeWhile is_ws cs))) < length (rev (takeWhile is_ws cs))"
        by (rule takeWhile_lt) simp
      then have "1 \<le> m" using m by simp
      moreover have "m \<le> length cs"
        using blank_match_le [OF Some] length_takeWhile_le [of is_ws cs] by linarith
      ultimately have "length (drop m cs) + 1 \<le> length cs" by simp
      with 2(2) [OF True Some] True Some show ?thesis by simp
    qed
  qed
qed

lemma r2_app_hd:
  "ys = [] \<or> \<not> is_ws (hd ys) \<Longrightarrow>
   replace_blank_lines (xs @ ys) = replace_blank_lines xs @ replace_blank_lines ys"
proof (induction xs rule: replace_blank_lines.induct)
  case 1
  show ?case by simp
next
  case (2 c cs)
  have tw: "takeWhile is_ws (cs @ ys) = takeWhile is_ws cs"
  proof (cases "\<forall>x\<in>set cs. is_ws x")
    case True
    then have a: "takeWhile is_ws cs = cs" by (simp add: takeWhile_eq_all_conv)
    have b: "takeWhile is_ws (cs @ ys) = cs"
      using True "2.prems" by (intro takeWhile_ws_block) auto
    show ?thesis by (simp only: a b)
  next
    case False
    then show ?thesis by (auto simp: takeWhile_append1)
  qed
  then have bm: "blank_match (cs @ ys) = blank_match cs" by (rule blank_match_cong)
  show ?case
  proof (cases "c = NL")
    case False
    with 2 show ?thesis by simp
  next
    case True
    show ?thesis
    proof (cases "blank_match cs")
      case None
      with True 2 bm show ?thesis by simp
    next
      case (Some m)
      have "m \<le> length cs"
        using blank_match_le [OF Some] length_takeWhile_le [of is_ws cs] by linarith
      then have "drop m (cs @ ys) = drop m cs @ ys" by simp
      with True Some bm 2(2) [OF True Some "2.prems"] show ?thesis by simp
    qed
  qed
qed

lemma r2_app_last:
  "xs \<noteq> [] \<Longrightarrow> \<not> is_ws (last xs) \<Longrightarrow>
   replace_blank_lines (xs @ ys) = replace_blank_lines xs @ replace_blank_lines ys"
proof (induction xs rule: replace_blank_lines.induct)
  case 1
  then show ?case by simp
next
  case (2 c cs)
  show ?case
  proof (cases "cs = []")
    case True
    with "2.prems" have "c \<noteq> NL" by auto
    with True show ?thesis by simp
  next
    case False
    with "2.prems" have last: "\<not> is_ws (last cs)" by simp
    then have "\<not> (\<forall>x\<in>set cs. is_ws x)" using False last_in_set by blast
    then have tw: "takeWhile is_ws (cs @ ys) = takeWhile is_ws cs"
      by (auto simp: takeWhile_append1)
    then have bm: "blank_match (cs @ ys) = blank_match cs" by (rule blank_match_cong)
    show ?thesis
    proof (cases "c = NL")
      case c: False
      with 2(3) [OF c False last] show ?thesis by simp
    next
      case True
      show ?thesis
      proof (cases "blank_match cs")
        case None
        with True 2(1) [OF True None False last] bm show ?thesis by simp
      next
        case (Some m)
        have lt: "length (takeWhile is_ws cs) < length cs"
          using \<open>\<not> (\<forall>x\<in>set cs. is_ws x)\<close> takeWhile_lt [of _ cs is_ws] by blast
        then have m: "m < length cs" using blank_match_le [OF Some] by linarith
        then have d: "drop m (cs @ ys) = drop m cs @ ys" by simp
        from m have ne: "drop m cs \<noteq> []" by simp
        then have "last (drop m cs) = last cs" using m by (simp add: last_drop)
        with last have "\<not> is_ws (last (drop m cs))" by simp
        with True Some bm d 2(2) [OF True Some ne] show ?thesis by simp
      qed
    qed
  qed
qed


lemma trim_Nil [simp]: "trim [] = []"
  by (simp add: trim_def)

lemma trim_id: "trimmed s \<Longrightarrow> trim s = s"
proof -
  assume t: "trimmed s"
  then obtain c cs where s: "s = c # cs" and c: "\<not> is_ws c"
    by (cases s) (auto simp: trimmed_def)
  then have a: "dropWhile is_ws s = s" by simp
  from t have "rev s \<noteq> []" and "\<not> is_ws (hd (rev s))"
    by (auto simp: trimmed_def hd_rev)
  then have b: "dropWhile is_ws (rev s) = rev s" by (cases "rev s") auto
  show ?thesis by (simp add: trim_def a b)
qed

lemma last_dropWhile: "dropWhile P xs \<noteq> [] \<Longrightarrow> last (dropWhile P xs) = last xs"
  by (metis last_appendR takeWhile_dropWhile_id)

lemma trim_trimmed: "trim s \<noteq> [] \<Longrightarrow> trimmed (trim s)"
proof -
  let ?t = "dropWhile is_ws s"
  let ?u = "dropWhile is_ws (rev ?t)"
  assume ne: "trim s \<noteq> []"
  then have u: "?u \<noteq> []" by (simp add: trim_def)
  have t: "?t \<noteq> []"
  proof
    assume e: "?t = []"
    have "?u = []" unfolding e by simp
    with u show False by simp
  qed
  from u have "\<not> is_ws (hd ?u)" by (rule hd_dropWhile)
  then have l: "\<not> is_ws (last (trim s))" using u by (simp add: trim_def last_rev)
  have "last ?u = last (rev ?t)" using u by (rule last_dropWhile)
  also have "\<dots> = hd ?t" using t by (simp add: last_rev)
  finally have "hd (trim s) = hd ?t" using u by (simp add: trim_def hd_rev)
  moreover have "\<not> is_ws (hd ?t)" using t by (rule hd_dropWhile)
  ultimately show ?thesis using ne l by (simp add: trimmed_def)
qed

lemma trim_idem: "trim (trim s) = trim s"
  by (cases "trim s = []") (auto simp: trim_id trim_trimmed)

lemma trim_all_ws: "\<forall>c\<in>set s. is_ws c \<Longrightarrow> trim s = []"
proof -
  assume "\<forall>c\<in>set s. is_ws c"
  then have "dropWhile is_ws s = []" by (simp only: dropWhile_eq_Nil_conv)
  then show ?thesis by (simp only: trim_def rev.simps dropWhile.simps)
qed

lemma set_r1: "set (replace_space_tab_runs s) \<subseteq> insert SP (set s)"
proof (induction s rule: replace_space_tab_runs.induct)
  case 1
  show ?case by simp
next
  case (2 c cs)
  have "set (dropWhile is_space_tab cs) \<subseteq> set cs" by (auto dest: set_dropWhileD)
  with 2 show ?case by (cases "is_space_tab c") auto
qed

lemma set_r2: "set (replace_blank_lines s) \<subseteq> set s"
proof (induction s rule: replace_blank_lines.induct)
  case 1
  show ?case by simp
next
  case (2 c cs)
  show ?case
  proof (cases "c = NL")
    case False
    with 2 show ?thesis by auto
  next
    case True
    show ?thesis
    proof (cases "blank_match cs")
      case None
      with True 2 show ?thesis by auto
    next
      case (Some m)
      have "set (replace_blank_lines (drop m cs)) \<subseteq> set (drop m cs)"
        using 2(2) [OF True Some] .
      also have "\<dots> \<subseteq> set cs" by (rule set_drop_subset)
      finally show ?thesis using True Some by auto
    qed
  qed
qed

lemma cleaned_all_ws: "\<forall>c\<in>set s. is_ws c \<Longrightarrow> cleaned s = []"
proof -
  assume a: "\<forall>c\<in>set s. is_ws c"
  have "is_ws SP" by (simp add: is_ws_def)
  with a set_r1 [of s] have "\<forall>c\<in>set (replace_space_tab_runs s). is_ws c" by auto
  with set_r2 [of "replace_space_tab_runs s"]
  have "\<forall>c\<in>set (replace_blank_lines (replace_space_tab_runs s)). is_ws c" by auto
  then show ?thesis unfolding cleaned_def by (rule trim_all_ws)
qed

lemma r2_fix_trim:
  assumes "replace_blank_lines s = s"
  shows "replace_blank_lines (trim s) = trim s"
proof -
  define t where "t = dropWhile is_ws s"
  define w where "w = takeWhile is_ws s"
  have s: "s = w @ t" by (simp add: t_def w_def)
  have "t = [] \<or> \<not> is_ws (hd t)" unfolding t_def using hd_dropWhile by blast
  then have "replace_blank_lines (w @ t) = replace_blank_lines w @ replace_blank_lines t"
    by (rule r2_app_hd)
  with assms s have eq: "replace_blank_lines w @ replace_blank_lines t = w @ t" by simp
  have "length (replace_blank_lines w) \<le> length w" "length (replace_blank_lines t) \<le> length t"
    by (rule r2_length)+
  moreover from eq have "length (replace_blank_lines w) + length (replace_blank_lines t) = length w + length t"
    by (metis length_append)
  ultimately have "length (replace_blank_lines w) = length w" by linarith
  with eq have t: "replace_blank_lines t = t" by simp
  define p where "p = rev (dropWhile is_ws (rev t))"
  define q where "q = rev (takeWhile is_ws (rev t))"
  have "p @ q = rev (takeWhile is_ws (rev t) @ dropWhile is_ws (rev t))"
    unfolding p_def q_def by (simp only: rev_append)
  then have pq: "t = p @ q" by simp
  have tp: "trim s = p" by (simp add: trim_def p_def t_def)
  show ?thesis
  proof (cases "p = []")
    case True
    with tp show ?thesis by simp
  next
    case False
    then have "trimmed p" using trim_trimmed [of s] tp by simp
    then have "\<not> is_ws (last p)" by (simp add: trimmed_def)
    with False have "replace_blank_lines (p @ q) = replace_blank_lines p @ replace_blank_lines q"
      by (rule r2_app_last)
    with t pq have eq2: "replace_blank_lines p @ replace_blank_lines q = p @ q" by simp
    have "length (replace_blank_lines p) \<le> length p" "length (replace_blank_lines q) \<le> length q"
      by (rule r2_length)+
    moreover from eq2 have "length (replace_blank_lines p) + length (replace_blank_lines q) = length p + length q"
      by (metis length_append)
    ultimately have "length (replace_blank_lines p) = length p" by linarith
    with eq2 have "replace_blank_lines p = p" by simp
    with tp show ?thesis by simp
  qed
qed

lemma cleaned_idem: "cleaned (cleaned s) = cleaned s"
proof -
  define t where "t = replace_blank_lines (replace_space_tab_runs s)"
  have c: "cleaned s = trim t" by (simp add: cleaned_def t_def)
  have "st_norm t" unfolding t_def by (intro st_norm_r2 st_norm_r1)
  then have "st_norm (trim t)" by (rule st_norm_trim)
  then have 1: "replace_space_tab_runs (trim t) = trim t" by (rule st_norm_r1_id)
  have "replace_blank_lines t = t" unfolding t_def by (rule r2_idem)
  then have 2: "replace_blank_lines (trim t) = trim t" by (rule r2_fix_trim)
  show ?thesis unfolding c by (simp add: cleaned_def 1 2 trim_idem)
qed

subsection \<open>The cache is transparent\<close>

lemma cache_ok_new: "cache_ok (new_BaseExtractor incl)"
  by (simp add: cache_ok_def new_BaseExtractor_def)

lemma cleanText_fst: "cache_ok this \<Longrightarrow> fst (cleanText this s) = cleaned s"
proof (cases "map_of (textCache this) s")
  case None
  then show ?thesis by (simp add: cleanText_def Let_def)
next
  case (Some hit)
  assume "cache_ok this"
  moreover from Some have "(s, hit) \<in> set (textCache this)" by (rule map_of_SomeD)
  ultimately have "hit = cleaned s" by (auto simp: cache_ok_def list_all_iff)
  with Some show ?thesis by (simp add: cleanText_def)
qed

lemma cleanText_snd_ok: "cache_ok this \<Longrightarrow> cache_ok (snd (cleanText this s))"
  by (cases "map_of (textCache this) s") (auto simp: cleanText_def Let_def cache_ok_def)

lemma cleanText_includeHtml: "includeHtml (snd (cleanText this s)) = includeHtml this"
  by (cases "map_of (textCache this) s") (auto simp: cleanText_def Let_def)

lemma filter_not_dropWhile: "filter (\<lambda>c. \<not> P c) (dropWhile P xs) = filter (\<lambda>c. \<not> P c) xs"
  by (induction xs) auto

lemma r1_keeps_others:
  "filter (\<lambda>c. \<not> is_space_tab c) (replace_space_tab_runs s) = filter (\<lambda>c. \<not> is_space_tab c) s"
proof (induction s rule: replace_space_tab_runs.induct)
  case 1
  show ?case by simp
next
  case (2 c cs)
  show ?case
  proof (cases "is_space_tab c")
    case True
    have "is_space_tab SP" by (simp add: is_space_tab_def)
    with True 2 show ?thesis by (simp add: filter_not_dropWhile)
  next
    case False
    with 2 show ?thesis by simp
  qed
qed

lemma trim_decomp_ws:
  "\<exists>pre post. s = pre @ trim s @ post \<and> list_all is_ws pre \<and> list_all is_ws post"
proof -
  let ?t = "dropWhile is_ws s"
  let ?post = "rev (takeWhile is_ws (rev ?t))"
  have "rev (dropWhile is_ws (rev ?t)) @ ?post
        = rev (takeWhile is_ws (rev ?t) @ dropWhile is_ws (rev ?t))"
    by (simp only: rev_append)
  also have "\<dots> = ?t" by simp
  finally have "?t = trim s @ ?post" by (simp add: trim_def)
  moreover have "s = takeWhile is_ws s @ ?t" by simp
  ultimately have "s = takeWhile is_ws s @ trim s @ ?post" by simp
  moreover have "list_all is_ws (takeWhile is_ws s)"
    by (auto simp: list_all_iff dest: set_takeWhileD)
  moreover have "list_all is_ws ?post"
    by (auto simp: list_all_iff dest: set_takeWhileD)
  ultimately show ?thesis by blast
qed

lemma cleaned_spec:
  "cleaned s = trim (collapse_blank_lines_spec (squeeze_space_tab_runs_spec s))"
  by (simp add: cleaned_def r1_spec r2_spec)

subsection \<open>Claims about cleanText\<close>

text \<open>
  C8. For every string, \<open>cleanText\<close> replaces each run of space and tab characters by a
  single space and leaves every other character, newlines among them, untouched and in
  order; it then collapses, in each white-space run, the stretch from a newline to the
  last further newline into exactly two newlines; and it trims the result: the value is
  the collapsed string without a white-space prefix and suffix, and it is empty or has no
  white space at either end. The empty string and every string of white space only are
  mapped to the empty string. The statement is about the method with its cache, in any
  state of the cache that the extractor can reach.
\<close>

theorem cleanText_normalizes:
  "cache_ok this \<Longrightarrow>
     fst (cleanText this s) = trim (collapse_blank_lines_spec (squeeze_space_tab_runs_spec s))
   \<and> filter (\<lambda>c. \<not> is_space_tab c) (squeeze_space_tab_runs_spec s)
       = filter (\<lambda>c. \<not> is_space_tab c) s
   \<and> (\<exists>pre post. collapse_blank_lines_spec (squeeze_space_tab_runs_spec s)
                     = pre @ fst (cleanText this s) @ post
                   \<and> list_all is_ws pre \<and> list_all is_ws post)
   \<and> (fst (cleanText this s) = [] \<or> trimmed (fst (cleanText this s)))
   \<and> (list_all is_ws s \<longrightarrow> fst (cleanText this s) = [])
   \<and> fst (cleanText this []) = []"
proof -
  assume ok: "cache_ok this"
  let ?x = "collapse_blank_lines_spec (squeeze_space_tab_runs_spec s)"
  have r: "fst (cleanText this s) = trim ?x"
    using ok by (simp add: cleanText_fst cleaned_spec)
  have keep: "filter (\<lambda>c. \<not> is_space_tab c) (squeeze_space_tab_runs_spec s)
              = filter (\<lambda>c. \<not> is_space_tab c) s"
    using r1_keeps_others [of s] by (simp add: r1_spec)
  have dec: "\<exists>pre post. ?x = pre @ fst (cleanText this s) @ post
                        \<and> list_all is_ws pre \<and> list_all is_ws post"
    unfolding r by (rule trim_decomp_ws)
  have tr: "fst (cleanText this s) = [] \<or> trimmed (fst (cleanText this s))"
    unfolding r using trim_trimmed by blast
  have ws: "list_all is_ws s \<longrightarrow> fst (cleanText this s) = []"
    using ok by (simp add: cleanText_fst cleaned_all_ws list_all_iff)
  have "cleaned [] = []" by (simp add: cleaned_def)
  then have e: "fst (cleanText this []) = []"
    using ok by (simp add: cleanText_fst)
  from r keep dec tr ws e show ?thesis by blast
qed

theorem cleanText_normalizes_witness:
  "cache_ok (new_BaseExtractor False)
   \<and> fst (cleanText (new_BaseExtractor False) (js ''Hello    world'' @ [NL, NL, NL] @ js ''test   text''))
       = js ''Hello world'' @ [NL, NL] @ js ''test text''
   \<and> list_all is_ws (js ''   '' @ [NL, NL] @ js ''   '')
   \<and> fst (cleanText (new_BaseExtractor False) (js ''   '' @ [NL, NL] @ js ''   '')) = []"
proof -
  have ok: "cache_ok (new_BaseExtractor False)" by (rule cache_ok_new)
  have ws: "list_all is_ws (js ''   '' @ [NL, NL] @ js ''   '')"
    by (simp add: js_def is_ws_def)
  have "trim (collapse_blank_lines_spec (squeeze_space_tab_runs_spec
          (js ''Hello    world'' @ [NL, NL, NL] @ js ''test   text'')))
        = js ''Hello world'' @ [NL, NL] @ js ''test text''"
    by (simp add: js_def trim_def collapse_blank_lines_spec_def collapse_blank_run_def
        squeeze_space_tab_runs_spec_def is_space_tab_def is_ws_def)
  with cleanText_normalizes [OF ok, of "js ''Hello    world'' @ [NL, NL, NL] @ js ''test   text''"]
  have a: "fst (cleanText (new_BaseExtractor False) (js ''Hello    world'' @ [NL, NL, NL] @ js ''test   text''))
       = js ''Hello world'' @ [NL, NL] @ js ''test text''"
    by simp
  from cleanText_normalizes [OF ok, of "js ''   '' @ [NL, NL] @ js ''   ''"] ws
  have b: "fst (cleanText (new_BaseExtractor False) (js ''   '' @ [NL, NL] @ js ''   '')) = []"
    by blast
  from ok a ws b show ?thesis by blast
qed

text \<open>
  C9. Normalisation is idempotent: cleaning the result of \<open>cleanText\<close> again, in the
  state that the first call leaves behind, returns it unchanged.
\<close>

theorem cleanText_idempotent:
  "cache_ok this \<Longrightarrow>
     fst (cleanText (snd (cleanText this s)) (fst (cleanText this s))) = fst (cleanText this s)"
  by (simp add: cleanText_fst cleanText_snd_ok cleaned_idem)

theorem cleanText_idempotent_witness:
  "cache_ok (new_BaseExtractor True)
   \<and> fst (cleanText (snd (cleanText (new_BaseExtractor True) (js '' a   b '')))
            (fst (cleanText (new_BaseExtractor True) (js '' a   b ''))))
       = fst (cleanText (new_BaseExtractor True) (js '' a   b ''))
   \<and> fst (cleanText (new_BaseExtractor True) (js '' a   b '')) = js ''a b''"
proof -
  have ok: "cache_ok (new_BaseExtractor True)" by (rule cache_ok_new)
  have "fst (cleanText (new_BaseExtractor True) (js '' a   b '')) = js ''a b''"
    by (simp add: cleanText_def new_BaseExtractor_def cleaned_def trim_def js_def
        is_space_tab_def is_ws_def Let_def)
  with ok cleanText_idempotent [OF ok, of "js '' a   b ''"] show ?thesis by blast
qed

section \<open>Properties of generateId\<close>

lemma toInt32_signed32: "toInt32 x = signed32 (x mod 2 ^ 32)"
proof -
  have r: "0 \<le> x mod 2 ^ 32" "x mod 2 ^ 32 < 2 ^ 32" by simp_all
  show ?thesis
  proof (cases "x mod 2 ^ 32 < 2 ^ 31")
    case True
    then have "(x mod 2 ^ 32 + 2 ^ 31) mod 2 ^ 32 = x mod 2 ^ 32 + 2 ^ 31"
      using r by (intro mod_pos_pos_trivial) auto
    moreover have "(x + 2 ^ 31) mod 2 ^ 32 = (x mod 2 ^ 32 + 2 ^ 31) mod 2 ^ 32"
      by (simp add: mod_add_left_eq)
    ultimately show ?thesis using True by (simp add: toInt32_def signed32_def)
  next
    case False
    then have "(x mod 2 ^ 32 + 2 ^ 31 - 2 ^ 32) mod 2 ^ 32 = x mod 2 ^ 32 + 2 ^ 31 - 2 ^ 32"
      using r by (intro mod_pos_pos_trivial) auto
    moreover have "(x + 2 ^ 31) mod 2 ^ 32 = (x mod 2 ^ 32 + 2 ^ 31 - 2 ^ 32) mod 2 ^ 32"
    proof -
      have "(x mod 2 ^ 32 + 2 ^ 31 - 2 ^ 32) mod 2 ^ 32 = (x mod 2 ^ 32 + 2 ^ 31) mod (2 ^ 32 :: int)"
        by (metis minus_mod_self2)
      then show ?thesis by (simp add: mod_add_left_eq)
    qed
    ultimately show ?thesis using False by (simp add: toInt32_def signed32_def)
  qed
qed

lemma signed32_mod: "signed32 u mod 2 ^ 32 = u mod 2 ^ 32"
proof (cases "u < 2 ^ 31")
  case True
  then show ?thesis by (simp add: signed32_def)
next
  case False
  have "(u - 2 ^ 32) mod 2 ^ 32 = u mod (2 ^ 32 :: int)" by (metis minus_mod_self2)
  with False show ?thesis by (simp add: signed32_def)
qed

lemma toInt32_mod: "toInt32 x mod 2 ^ 32 = x mod 2 ^ 32"
proof -
  have "signed32 (x mod 2 ^ 32) mod 2 ^ 32 = (x mod 2 ^ 32) mod 2 ^ 32" by (rule signed32_mod)
  also have "\<dots> = x mod 2 ^ 32" by (rule mod_mod_trivial)
  finally show ?thesis by (simp only: toInt32_signed32)
qed

lemma hash_step_mod: "hash_step h c = signed32 ((h * 31 + uint c) mod 2 ^ 32)"
proof -
  have "toInt32 (toInt32 h * 2 ^ 5) mod 2 ^ 32 = (toInt32 h * 2 ^ 5) mod 2 ^ 32"
    by (rule toInt32_mod)
  also have "\<dots> = (h * 2 ^ 5) mod 2 ^ 32"
    by (intro mod_mult_cong toInt32_mod refl)
  finally have "(toInt32 (toInt32 h * 2 ^ 5) - h + uint c) mod 2 ^ 32
        = (h * 2 ^ 5 - h + uint c) mod 2 ^ 32"
    by (intro mod_add_cong mod_diff_cong refl)
  moreover have "h * 2 ^ 5 - h + uint c = h * 31 + uint c" by simp
  ultimately have "(toInt32 (toInt32 h * 2 ^ 5) - h + uint c) mod 2 ^ 32
        = (h * 31 + uint c) mod 2 ^ 32"
    by (simp only:)
  then show ?thesis by (simp only: hash_step_def Let_def toInt32_signed32)
qed

lemma foldl_hash_step:
  "foldl hash_step (signed32 u) s = signed32 (foldl (\<lambda>h c. (h * 31 + uint c) mod 2 ^ 32) u s)"
proof (induction s arbitrary: u)
  case Nil
  show ?case by simp
next
  case (Cons c s)
  have "(signed32 u * 31 + uint c) mod 2 ^ 32 = (u * 31 + uint c) mod 2 ^ 32"
    by (intro mod_add_cong mod_mult_cong signed32_mod refl)
  then have "hash_step (signed32 u) c = signed32 ((u * 31 + uint c) mod 2 ^ 32)"
    by (simp only: hash_step_mod)
  with Cons [of "(u * 31 + uint c) mod 2 ^ 32"] show ?case by (simp only: foldl_Cons)
qed

lemma decimal_value_snoc: "decimal_value (ds @ [d]) = 10 * decimal_value ds + (unat d - 48)"
  by (simp add: decimal_value_def)

lemma digit_char_props: "d < 10 \<Longrightarrow> unat (digit_char d) - 48 = d \<and> is_digit (digit_char d)"
proof -
  assume d: "d < 10"
  have "unat (of_nat (48 + d) :: 16 word) = (48 + d) mod 2 ^ LENGTH(16)"
    by (rule unat_of_nat)
  also have "\<dots> = 48 + d" using d by simp
  finally have u: "unat (digit_char d) = 48 + d"
    by (simp only: digit_char_def)
  have "is_digit (digit_char d)"
    unfolding is_digit_def word_le_nat_alt using u d by simp
  with u show ?thesis by simp
qed

lemma toString_decimal: "decimal_value (toString n) = n \<and> list_all is_digit (toString n)"
proof (induction n rule: toString.induct)
  case (1 n)
  show ?case
  proof (cases "n < 10")
    case True
    then have "toString n = [digit_char n]" by simp
    with True digit_char_props [of n] show ?thesis by (simp add: decimal_value_def)
  next
    case False
    then have ts: "toString n = toString (n div 10) @ [digit_char (n mod 10)]"
      by (subst toString.simps) simp
    have "n mod 10 < 10" by simp
    from digit_char_props [OF this] 1 [OF False] show ?thesis
      unfolding ts by (simp add: decimal_value_snoc)
  qed
qed

text \<open>
  C7. For every string, \<open>generateId\<close> is the decimal representation of the absolute value
  of the rolling hash \<open>h = (h * 31 + c) mod 2^32\<close>, read as a signed 32-bit integer, that
  the shift-and-subtract loop of the source computes over the code units in sequence;
  the empty string is mapped to \<open>0\<close>. The function reads nothing but its argument, so
  two calls on one string return one id.
\<close>

theorem generateId_rolling_hash:
  "generateId s = toString (nat \<bar>signed32 (rolling_hash_spec s)\<bar>)
   \<and> int (decimal_value (generateId s)) = \<bar>signed32 (rolling_hash_spec s)\<bar>
   \<and> list_all is_digit (generateId s)
   \<and> generateId [] = js ''0''"
proof -
  have "signed32 0 = 0" by (simp add: signed32_def)
  then have "foldl hash_step 0 s = signed32 (rolling_hash_spec s)"
    using foldl_hash_step [of 0 s] by (simp add: rolling_hash_spec_def)
  moreover have "rolling_hash_spec [] = 0" by (simp add: rolling_hash_spec_def)
  ultimately have a: "generateId s = toString (nat \<bar>signed32 (rolling_hash_spec s)\<bar>)"
    using \<open>signed32 0 = 0\<close> by (cases s) (simp_all add: generateId_def)
  have b: "generateId [] = js ''0''"
    by (simp add: generateId_def js_def digit_char_def)
  from a b toString_decimal [of "nat \<bar>signed32 (rolling_hash_spec s)\<bar>"] show ?thesis
    by simp
qed

theorem generateId_rolling_hash_witness:
  "generateId (js ''zzzzzzzzzzzzzz'') = js ''1886561600''
   \<and> signed32 (rolling_hash_spec (js ''zzzzzzzzzzzzzz'')) = - 1886561600"
proof -
  have "signed32 (rolling_hash_spec (js ''zzzzzzzzzzzzzz'')) = - 1886561600"
    by (simp add: rolling_hash_spec_def signed32_def js_def)
  moreover have "toString 1886561600 = js ''1886561600''"
    by (simp add: js_def digit_char_def)
  ultimately show ?thesis
    using generateId_rolling_hash [of "js ''zzzzzzzzzzzzzz''"] by simp
qed

section \<open>Properties of isElementVisible\<close>

text \<open>
  C6. \<open>isElementVisible\<close> follows the layered, short-circuit decision order: it is the
  first-match evaluation of the four "not visible" rules (not connected; no offset parent
  together with inline \<open>display: none\<close>; inline \<open>display: none\<close> or inline
  \<open>visibility: hidden\<close>; a bounding box of zero width or zero height), and when none of them
  applies the computed style decides, a failing style query giving "visible".
\<close>

theorem isElementVisible_decision_order:
  "isElementVisible el = isVisible_spec (props el)
   \<and> (\<not> isConnected (props el) \<longrightarrow> \<not> isElementVisible el)
   \<and> (offsetParent_null (props el) \<and> style_display (props el) = ''none'' \<longrightarrow> \<not> isElementVisible el)
   \<and> (style_display (props el) = ''none'' \<or> style_visibility (props el) = ''hidden''
        \<longrightarrow> \<not> isElementVisible el)
   \<and> (rect_width (props el) = 0 \<or> rect_height (props el) = 0 \<longrightarrow> \<not> isElementVisible el)
   \<and> (isConnected (props el) \<and> style_display (props el) \<noteq> ''none''
        \<and> style_visibility (props el) \<noteq> ''hidden''
        \<and> rect_width (props el) \<noteq> 0 \<and> rect_height (props el) \<noteq> 0
        \<longrightarrow> (case computedStyle (props el) of
               None \<Rightarrow> isElementVisible el
             | Some (display, visibility) \<Rightarrow>
                 isElementVisible el = (display \<noteq> ''none'' \<and> visibility \<noteq> ''hidden'')))"
  by (auto simp: isElementVisible_def isVisible_spec_def visibility_rules_spec_def Let_def
      split: option.splits)

theorem isElementVisible_decision_order_witness:
  "isElementVisible (Element ((visible_props ''DIV'' [])\<lparr>computedStyle := None\<rparr>) [])
   \<and> isElementVisible (Element (visible_props ''DIV'' []) [])
   \<and> \<not> isElementVisible (Element ((visible_props ''DIV'' [])\<lparr>isConnected := False\<rparr>) [])
   \<and> \<not> isElementVisible (Element ((visible_props ''DIV'' [])
          \<lparr>offsetParent_null := True, style_display := ''none''\<rparr>) [])
   \<and> \<not> isElementVisible (Element ((visible_props ''DIV'' [])\<lparr>style_visibility := ''hidden''\<rparr>) [])
   \<and> \<not> isElementVisible (Element ((visible_props ''DIV'' [])\<lparr>rect_height := 0\<rparr>) [])
   \<and> \<not> isElementVisible (Element ((visible_props ''DIV'' [])
          \<lparr>computedStyle := Some (''none'', ''visible'')\<rparr>) [])"
  using
    isElementVisible_decision_order
      [of "Element ((visible_props ''DIV'' [])\<lparr>computedStyle := None\<rparr>) []"]
    isElementVisible_decision_order [of "Element (visible_props ''DIV'' []) []"]
    isElementVisible_decision_order
      [of "Element ((visible_props ''DIV'' [])\<lparr>isConnected := False\<rparr>) []"]
    isElementVisible_decision_order
      [of "Element ((visible_props ''DIV'' [])
             \<lparr>offsetParent_null := True, style_display := ''none''\<rparr>) []"]
    isElementVisible_decision_order
      [of "Element ((visible_props ''DIV'' [])\<lparr>style_visibility := ''hidden''\<rparr>) []"]
    isElementVisible_decision_order
      [of "Element ((visible_props ''DIV'' [])\<lparr>rect_height := 0\<rparr>) []"]
    isElementVisible_decision_order
      [of "Element ((visible_props ''DIV'' [])
             \<lparr>computedStyle := Some (''none'', ''visible'')\<rparr>) []"]
  by (simp add: isVisible_spec_def visibility_rules_spec_def visible_props_def)

section \<open>Properties of text collection\<close>

subsection \<open>Normalisation distributes over the join of trimmed pieces\<close>

lemma dropWhile_id: "xs = [] \<or> \<not> P (hd xs) \<Longrightarrow> dropWhile P xs = xs"
  by (cases xs) auto

lemma r1_app_hd:
  "ys = [] \<or> \<not> is_space_tab (hd ys) \<Longrightarrow>
   replace_space_tab_runs (xs @ ys) = replace_space_tab_runs xs @ replace_space_tab_runs ys"
proof (induction xs rule: replace_space_tab_runs.induct)
  case 1
  show ?case by simp
next
  case (2 c cs)
  show ?case
  proof (cases "is_space_tab c")
    case False
    with 2 show ?thesis by simp
  next
    case True
    show ?thesis
    proof (cases "\<forall>x\<in>set cs. is_space_tab x")
      case all: True
      then have a: "dropWhile is_space_tab cs = []" by (simp only: dropWhile_eq_Nil_conv)
      have "dropWhile is_space_tab (cs @ ys) = dropWhile is_space_tab ys"
        using all by (simp add: dropWhile_append2)
      also have "\<dots> = ys" using "2.prems" by (rule dropWhile_id)
      finally have b: "dropWhile is_space_tab (cs @ ys) = ys" .
      show ?thesis using True by (simp add: a b)
    next
      case False
      then have "dropWhile is_space_tab (cs @ ys) = dropWhile is_space_tab cs @ ys"
        by (auto simp: dropWhile_append1)
      with True 2(1) [OF True "2.prems"] show ?thesis by simp
    qed
  qed
qed

lemma r1_app_last:
  assumes "xs \<noteq> []" and "\<not> is_space_tab (last xs)"
  shows "replace_space_tab_runs (xs @ ys) = replace_space_tab_runs xs @ replace_space_tab_runs ys"
  using assms
proof (induction xs rule: replace_space_tab_runs.induct)
  case 1
  then show ?case by simp
next
  case (2 c cs)
  show ?case
  proof (cases "cs = []")
    case True
    with "2.prems" show ?thesis by simp
  next
    case False
    with "2.prems" have l: "\<not> is_space_tab (last cs)" by simp
    show ?thesis
    proof (cases "is_space_tab c")
      case c: False
      with 2(2) [OF c False l] show ?thesis by simp
    next
      case True
      from False l have ex: "\<not> (\<forall>x\<in>set cs. is_space_tab x)" using last_in_set by blast
      then have d: "dropWhile is_space_tab (cs @ ys) = dropWhile is_space_tab cs @ ys"
        by (auto simp: dropWhile_append1)
      from ex have ne: "dropWhile is_space_tab cs \<noteq> []" by (simp only: dropWhile_eq_Nil_conv not_False_eq_True)
      then have "last (dropWhile is_space_tab cs) = last cs" by (rule last_dropWhile)
      with l have "\<not> is_space_tab (last (dropWhile is_space_tab cs))" by simp
      with True d 2(1) [OF True ne] show ?thesis by simp
    qed
  qed
qed

lemma r1_last:
  assumes "xs \<noteq> []" and "\<not> is_space_tab (last xs)"
  shows "replace_space_tab_runs xs \<noteq> [] \<and> last (replace_space_tab_runs xs) = last xs"
proof -
  have "replace_space_tab_runs (butlast xs @ [last xs])
        = replace_space_tab_runs (butlast xs) @ replace_space_tab_runs [last xs]"
    using assms by (intro r1_app_hd) simp
  with assms show ?thesis by simp
qed

lemma r2_last:
  assumes "xs \<noteq> []" and "\<not> is_ws (last xs)"
  shows "replace_blank_lines xs \<noteq> [] \<and> last (replace_blank_lines xs) = last xs"
proof -
  have "replace_blank_lines (butlast xs @ [last xs])
        = replace_blank_lines (butlast xs) @ replace_blank_lines [last xs]"
    using assms by (intro r2_app_hd) simp
  moreover have "last xs \<noteq> NL" using assms by auto
  ultimately show ?thesis using assms by simp
qed

lemma trimmed_core:
  assumes "trimmed x"
  shows "trimmed (replace_blank_lines (replace_space_tab_runs x))"
proof -
  from assms have ne: "x \<noteq> []" and h: "\<not> is_ws (hd x)" and l: "\<not> is_ws (last x)"
    by (auto simp: trimmed_def)
  have 1: "replace_space_tab_runs x \<noteq> [] \<and> hd (replace_space_tab_runs x) = hd x"
    using ne h by (intro r1_hd) (auto dest: is_space_tab_ws)
  have 2: "last (replace_space_tab_runs x) = last x"
    using ne l r1_last [of x] by (auto dest: is_space_tab_ws)
  obtain c cs where cs: "replace_space_tab_runs x = c # cs" using 1 by (cases "replace_space_tab_runs x") auto
  have 3: "replace_blank_lines (replace_space_tab_runs x) \<noteq> []
           \<and> hd (replace_blank_lines (replace_space_tab_runs x)) = hd (replace_space_tab_runs x)"
    unfolding cs using r2_hd [of c cs] by simp
  have 4: "last (replace_blank_lines (replace_space_tab_runs x)) = last (replace_space_tab_runs x)"
    using 1 2 l r2_last [of "replace_space_tab_runs x"] by simp
  from 1 2 3 4 h l show ?thesis by (simp add: trimmed_def)
qed

lemma cleaned_trimmed:
  "trimmed x \<Longrightarrow> cleaned x = replace_blank_lines (replace_space_tab_runs x)"
  by (simp add: cleaned_def trim_id trimmed_core)

lemma trimmed_cleaned: "trimmed x \<Longrightarrow> trimmed (cleaned x)"
  by (simp add: cleaned_trimmed trimmed_core)

lemma trimmed_glue: "trimmed x \<Longrightarrow> trimmed y \<Longrightarrow> trimmed (x @ SP # y)"
  by (cases x) (auto simp: trimmed_def)

lemma cleaned_glue:
  assumes x: "trimmed x" and y: "trimmed y"
  shows "cleaned (x @ SP # y) = cleaned x @ SP # cleaned y"
proof -
  from x have xne: "x \<noteq> []" and xl: "\<not> is_ws (last x)" by (auto simp: trimmed_def)
  from y have yne: "y \<noteq> []" and yh: "\<not> is_ws (hd y)" by (auto simp: trimmed_def)
  have "replace_space_tab_runs (x @ SP # y)
        = replace_space_tab_runs x @ replace_space_tab_runs (SP # y)"
    using xne xl by (intro r1_app_last) (auto dest: is_space_tab_ws)
  moreover have "dropWhile is_space_tab y = y"
    using yh by (intro dropWhile_id) (auto dest: is_space_tab_ws)
  ultimately have 1: "replace_space_tab_runs (x @ SP # y)
        = replace_space_tab_runs x @ SP # replace_space_tab_runs y"
    by (simp add: is_space_tab_def)
  have "replace_space_tab_runs x \<noteq> [] \<and> last (replace_space_tab_runs x) = last x"
    using xne xl by (intro r1_last) (auto dest: is_space_tab_ws)
  then have "replace_blank_lines (replace_space_tab_runs x @ SP # replace_space_tab_runs y)
        = replace_blank_lines (replace_space_tab_runs x)
          @ replace_blank_lines (SP # replace_space_tab_runs y)"
    using xl by (intro r2_app_last) auto
  then have 2: "replace_blank_lines (replace_space_tab_runs (x @ SP # y))
        = replace_blank_lines (replace_space_tab_runs x)
          @ SP # replace_blank_lines (replace_space_tab_runs y)"
    by (simp add: 1)
  show ?thesis
    using 2 x y trimmed_glue [OF x y] by (simp add: cleaned_trimmed)
qed

lemma trimmed_join:
  "ps \<noteq> [] \<Longrightarrow> list_all trimmed ps \<Longrightarrow> trimmed (join ps)"
proof (induction ps rule: join.induct)
  case 1
  then show ?case by simp
next
  case (2 x)
  then show ?case by simp
next
  case (3 x y ys)
  then show ?case by (simp add: trimmed_glue)
qed

lemma cleaned_join:
  "list_all trimmed ps \<Longrightarrow> cleaned (join ps) = join (map cleaned ps)"
proof (induction ps rule: join.induct)
  case 1
  show ?case by (simp add: cleaned_def)
next
  case (2 x)
  show ?case by simp
next
  case (3 x y ys)
  then have "trimmed x" and "trimmed (join (y # ys))"
    by (simp_all add: trimmed_join)
  then have "cleaned (x @ SP # join (y # ys)) = cleaned x @ SP # cleaned (join (y # ys))"
    by (rule cleaned_glue)
  with 3 show ?case by simp
qed

lemma join_spaced: "join ps = tl (spaced ps)"
  by (induction ps rule: join.induct) simp_all

lemma spaced_append: "spaced (ps @ qs) = spaced ps @ spaced qs"
  by (induction ps) simp_all

lemma spaced_join: "ps \<noteq> [] \<Longrightarrow> SP # join ps = spaced ps"
  by (cases ps) (simp_all add: join_spaced)

lemma join_Nil_iff: "list_all trimmed ps \<Longrightarrow> join ps = [] \<longleftrightarrow> ps = []"
  using trimmed_join [of ps] by (auto simp: trimmed_def)

lemma cleaned_Nil_or_trimmed: "cleaned s = [] \<or> trimmed (cleaned s)"
  unfolding cleaned_def using trim_trimmed by blast

subsection \<open>The recursive walk computes the cleaned join of the fragments\<close>

lemma frags_trimmed: "list_all trimmed (frags ns)"
  by (induction ns rule: frags.induct) (auto simp: trim_trimmed)

lemma cleaned_frags_trimmed: "list_all trimmed (map cleaned (frags ns))"
  using frags_trimmed [of ns] by (auto simp: list_all_iff trimmed_cleaned)

lemma recursive_walk:
  shows "cache_ok this \<Longrightarrow>
           fst (extractTextRecursive this el) = join (map cleaned (frags (childNodes el)))
         \<and> cache_ok (snd (extractTextRecursive this el))
         \<and> includeHtml (snd (extractTextRecursive this el)) = includeHtml this"
    and "cache_ok this \<Longrightarrow> list_all trimmed textParts \<Longrightarrow>
           list_all trimmed (fst (childNodes_loop this textParts ns))
         \<and> spaced (map cleaned (fst (childNodes_loop this textParts ns)))
             = spaced (map cleaned textParts) @ spaced (map cleaned (frags ns))
         \<and> cache_ok (snd (childNodes_loop this textParts ns))
         \<and> includeHtml (snd (childNodes_loop this textParts ns)) = includeHtml this"
proof (induction this el and this textParts ns rule: extractTextRecursive_childNodes_loop.induct)
  case (1 this p ch)
  obtain parts this1 where loop: "childNodes_loop this [] ch = (parts, this1)"
    by (cases "childNodes_loop this [] ch")
  from 1(1) [OF "1.prems"] loop
  have tr: "list_all trimmed parts"
    and sp: "spaced (map cleaned parts) = spaced (map cleaned (frags ch))"
    and ok: "cache_ok this1" and ih: "includeHtml this1 = includeHtml this"
    by simp_all
  have "fst (cleanText this1 (join parts)) = cleaned (join parts)"
    using ok by (rule cleanText_fst)
  also have "\<dots> = join (map cleaned parts)" using tr by (rule cleaned_join)
  also have "\<dots> = join (map cleaned (frags ch))" using sp by (simp add: join_spaced)
  finally show ?case
    using loop ok ih by (simp add: cleanText_snd_ok cleanText_includeHtml)
next
  case (2 this textParts)
  then show ?case by simp
next
  case (3 this textParts t ns)
  let ?parts = "if trim t \<noteq> [] then textParts @ [trim t] else textParts"
  have tr: "list_all trimmed ?parts"
    using "3.prems" by (simp add: trim_trimmed)
  from 3(1) [OF refl "3.prems"(1) tr] show ?case
    by (cases "trim t = []") (simp_all add: spaced_append)
next
  case (4 this textParts el ns)
  obtain p ch where el: "el = Element p ch" by (cases el)
  show ?case
  proof (cases "toLowerCase (tagName (props el)) \<in> set excluded_tags")
    case True
    with 4(1) [OF True "4.prems"] el show ?thesis by simp
  next
    case False
    obtain childText this1 where rec: "extractTextRecursive this el = (childText, this1)"
      by (cases "extractTextRecursive this el")
    from 4(2) [OF False "4.prems"(1)] rec el
    have ct: "childText = join (map cleaned (frags ch))"
      and ok: "cache_ok this1" and ih: "includeHtml this1 = includeHtml this"
      by simp_all
    let ?g = "map cleaned (frags ch)"
    let ?parts = "if childText \<noteq> [] then textParts @ [childText] else textParts"
    have g: "list_all trimmed ?g" by (rule cleaned_frags_trimmed)
    have tr: "list_all trimmed ?parts"
      using "4.prems"(2) g trimmed_join [of ?g] ct by (cases "?g = []") auto
    have "cleaned childText = childText"
    proof -
      have "cleaned (join (frags ch)) = join ?g" using frags_trimmed by (rule cleaned_join)
      then show ?thesis using ct cleaned_idem [of "join (frags ch)"] by simp
    qed
    then have sp: "spaced (map cleaned ?parts) = spaced (map cleaned textParts) @ spaced ?g"
      using ct g join_Nil_iff [of ?g] spaced_join [of ?g]
      by (cases "?g = []") (auto simp: spaced_append)
    from 4(3) [OF False rec [symmetric] refl ok tr] sp ih False el rec
    show ?thesis by (simp add: spaced_append)
  qed
next
  case (5 this textParts ns)
  then show ?case by simp
qed

lemma extractTextRecursive_fst:
  "cache_ok this \<Longrightarrow>
   fst (extractTextRecursive this el) = cleaned (join (frags (childNodes el)))"
  using recursive_walk(1) [of this el] cleaned_join [OF frags_trimmed, of "childNodes el"]
  by simp

subsection \<open>The tree walker and the specification select the same fragments\<close>

lemma acceptNode_iff:
  "acceptNode anc \<longleftrightarrow> list_all (\<lambda>a. toLowerCase (tagName (props a)) \<notin> set excluded_tags) anc"
  by (induction anc) auto

lemma walker_frags:
  "filter (\<lambda>text. text \<noteq> []) (map trim (walker_nodes anc ns))
   = (if acceptNode anc then frags ns else [])"
  by (induction anc ns rule: walker_nodes.induct) auto

lemma leaves_frags:
  "filter (\<lambda>f. f \<noteq> []) (map (\<lambda>leaf. trim (snd leaf))
      (filter (\<lambda>leaf. path_allowed (fst leaf)) (text_leaves path ns)))
   = (if path_allowed path then frags ns else [])"
  by (induction path ns rule: text_leaves.induct) (auto simp: path_allowed_def)

lemma fragments_spec_frags: "fragments_spec el = frags (childNodes el)"
  using leaves_frags [of "[]" "childNodes el"]
  by (simp add: fragments_spec_def path_allowed_def)

lemma treeWalker_path_Some:
  assumes "cache_ok this" and "treeWalker_path this (anc, el) = Some (r, this1)"
  shows "r = cleaned (join (frags (childNodes el))) \<and> cache_ok this1
         \<and> includeHtml this1 = includeHtml this"
proof -
  let ?parts = "filter (\<lambda>text. text \<noteq> []) (map trim (walker_nodes (el # anc) (childNodes el)))"
  from assms(2) have ne: "join ?parts \<noteq> []" and r: "(r, this1) = cleanText this (join ?parts)"
    by (auto simp: treeWalker_path_def Let_def split: if_splits)
  have "?parts = (if acceptNode (el # anc) then frags (childNodes el) else [])"
    by (rule walker_frags)
  with ne have "?parts = frags (childNodes el)" by (auto split: if_splits)
  with r have "(r, this1) = cleanText this (join (frags (childNodes el)))" by simp
  then have "r = fst (cleanText this (join (frags (childNodes el))))"
    and "this1 = snd (cleanText this (join (frags (childNodes el))))"
    by (metis fst_conv, metis snd_conv)
  with assms(1) show ?thesis
    by (simp add: cleanText_fst cleanText_snd_ok cleanText_includeHtml)
qed

lemma extractTextFromElement_props:
  assumes "cache_ok this"
  shows "fst (extractTextFromElement tw this le) = cleaned (join (frags (childNodes (snd le))))
         \<and> cache_ok (snd (extractTextFromElement tw this le))
         \<and> includeHtml (snd (extractTextFromElement tw this le)) = includeHtml this"
proof -
  have rec: "fst (extractTextRecursive this (snd le)) = cleaned (join (frags (childNodes (snd le))))
         \<and> cache_ok (snd (extractTextRecursive this (snd le)))
         \<and> includeHtml (snd (extractTextRecursive this (snd le))) = includeHtml this"
    using recursive_walk(1) [OF assms, of "snd le"] extractTextRecursive_fst [OF assms, of "snd le"]
    by simp
  show ?thesis
  proof (cases tw)
    case False
    with rec show ?thesis by (simp add: extractTextFromElement_def)
  next
    case True
    show ?thesis
    proof (cases "treeWalker_path this le")
      case None
      with True rec show ?thesis by (simp add: extractTextFromElement_def)
    next
      case (Some returned)
      obtain r this1 where rt: "returned = (r, this1)" by (cases returned)
      obtain anc el where le: "le = (anc, el)" by (cases le)
      from Some rt le have "treeWalker_path this (anc, el) = Some (r, this1)" by simp
      from treeWalker_path_Some [OF assms this] have
        "r = cleaned (join (frags (childNodes el))) \<and> cache_ok this1
         \<and> includeHtml this1 = includeHtml this" .
      moreover have "extractTextFromElement tw this le = (r, this1)"
        using True Some rt by (simp add: extractTextFromElement_def)
      ultimately show ?thesis using le by simp
    qed
  qed
qed

subsection \<open>Claims about text collection\<close>

lemmas eval_text =
  extractTextFromElement_def treeWalker_path_def cleanText_def cleaned_def trim_def js_def
  is_ws_def is_space_tab_def blank_match_def toLowerCase_def excluded_tags_def Let_def
  new_BaseExtractor_def visible_props_def

lemmas eval_dom =
  querySelectorAll_def querySelector_def element_querySelector_def selector_matches_def
  closest_def href_of_def page_def title_or_def isElementVisible_def hidden_props_def
  collapsed_props_def contentSelectors_def tweetSelectors_def tweet_textElement_def
  REDDIT_POST_def REDDIT_COMMENTS_def HACKER_NEWS_POST_def HACKER_NEWS_POST_ID_def
  HACKER_NEWS_COMMENTS_def HACKER_NEWS_COMMENT_ID_def HACKER_NEWS_COMMENT_TREE_def
  HACKER_NEWS_STORY_ITEM_def HACKER_NEWS_TITLE_LINK_def TWITTER_TWEET_def
  TWITTER_TWEET_ARTICLE_def

lemmas eval_spec =
  collectText_spec_def fragments_spec_def path_allowed_def generic_item_def tweet_item_def
  generic_candidates_def twitter_primary_items_def twitter_fallback_items_def


text \<open>
  Where the two walks agree: whenever the \<open>try\<close> block returns, its value is the value of
  \<open>extractTextRecursive\<close> on the same element; for an element that neither is nor lies
  inside an excluded element, the cleaned join of the walker's text nodes equals the
  recursive result also when it is empty; and since the recursive walk takes over when
  the block does not return, \<open>extractTextFromElement\<close> returns one string whether the tree
  walker is available or not.
\<close>

theorem treeWalker_path_agrees_with_recursive_walk:
  "cache_ok this \<Longrightarrow>
     (\<forall>r this1. treeWalker_path this le = Some (r, this1)
        \<longrightarrow> r = fst (extractTextRecursive this (snd le)))
   \<and> fst (extractTextFromElement True this le) = fst (extractTextRecursive this (snd le))
   \<and> fst (extractTextFromElement False this le) = fst (extractTextRecursive this (snd le))
   \<and> (acceptNode (snd le # fst le) \<longrightarrow>
        cleaned (join (filter (\<lambda>text. text \<noteq> [])
                         (map trim (walker_nodes (snd le # fst le) (childNodes (snd le))))))
        = fst (extractTextRecursive this (snd le)))"
proof -
  assume ok: "cache_ok this"
  obtain anc el where le: "le = (anc, el)" by (cases le)
  have rec: "fst (extractTextRecursive this el) = cleaned (join (frags (childNodes el)))"
    using ok by (rule extractTextRecursive_fst)
  have a: "\<forall>r this1. treeWalker_path this le = Some (r, this1)
        \<longrightarrow> r = fst (extractTextRecursive this (snd le))"
    using treeWalker_path_Some [OF ok] rec le by auto
  have b: "fst (extractTextFromElement tw this le) = fst (extractTextRecursive this (snd le))" for tw
    using extractTextFromElement_props [OF ok, of tw le] rec le by simp
  have c: "acceptNode (snd le # fst le) \<longrightarrow>
        cleaned (join (filter (\<lambda>text. text \<noteq> [])
                         (map trim (walker_nodes (snd le # fst le) (childNodes (snd le))))))
        = fst (extractTextRecursive this (snd le))"
    using walker_frags [of "el # anc" "childNodes el"] rec le by simp
  from a b c show ?thesis by blast
qed

theorem treeWalker_path_agrees_with_recursive_walk_witness:
  "cache_ok (new_BaseExtractor False)
   \<and> acceptNode [example_div]
   \<and> treeWalker_path (new_BaseExtractor False) ([], example_div)
       = Some (js ''Hello wor ld'',
               \<lparr>includeHtml = False, textCache = [(js ''Hello wor  ld'', js ''Hello wor ld'')]\<rparr>)
   \<and> fst (extractTextRecursive (new_BaseExtractor False) example_div) = js ''Hello wor ld''
   \<and> fst (extractTextFromElement True (new_BaseExtractor False) ([], example_div)) = js ''Hello wor ld''
   \<and> fst (extractTextFromElement False (new_BaseExtractor False) ([], example_div)) = js ''Hello wor ld''"
proof -
  have ok: "cache_ok (new_BaseExtractor False)" by (rule cache_ok_new)
  have p: "treeWalker_path (new_BaseExtractor False) ([], example_div)
       = Some (js ''Hello wor ld'',
               \<lparr>includeHtml = False, textCache = [(js ''Hello wor  ld'', js ''Hello wor ld'')]\<rparr>)"
    by (simp add: eval_text example_div_def)
  have acc: "acceptNode [example_div]"
    by (simp add: example_div_def eval_text)
  from treeWalker_path_agrees_with_recursive_walk [OF ok, of "([], example_div)"] p acc
  show ?thesis using ok by simp
qed

text \<open>
  C5. The collected text can contain text of a node whose ancestor is an excluded element:
  when the root of the extraction is itself excluded (or lies inside an excluded element)
  the walker rejects every text node, as its filter intends for any excluded ancestor,
  but the empty result hands over to the recursive walk, which returns the text. For the
  \<open>canvas\<close> element the collected text is its fallback text, with and without a working
  tree walker, and the generic extractor, whose selector \<open>.content\<close> matches the element,
  makes an item of it.
\<close>

theorem excluded_root_text_is_collected:
  "toLowerCase (tagName (props example_canvas)) \<in> set excluded_tags
   \<and> childNodes example_canvas = [TextNode (js ''Canvas is not supported.'')]
   \<and> fst (extractTextFromElement True (new_BaseExtractor False) ([], example_canvas))
       = js ''Canvas is not supported.''
   \<and> fst (extractTextFromElement False (new_BaseExtractor False) ([], example_canvas))
       = js ''Canvas is not supported.''
   \<and> map textContent
       (items (fst (GenericExtractor_extract (new_BaseExtractor False)
                      (page [ElementNode example_canvas]))))
       = [js ''Canvas is not supported.'']"
  by (simp add: GenericExtractor_extract_def generic_forEach_def eval_dom eval_text
      example_canvas_def)

text \<open>
  What holds for every element, whatever its own tag and its ancestors and whether or not
  the tree walker is available: the collected text contains no text from a text node that
  lies inside a script, style, noscript, svg or canvas element below the root of the
  extraction; it consists of every other non-empty trimmed text fragment, in document
  order, joined by single spaces and then normalised (which is the same as normalising
  each fragment and joining the results by single spaces); and it is the empty string
  when there is no such fragment, in particular when every text node of the subtree is
  white space only.
\<close>

theorem extractTextFromElement_collects_fragments:
  "cache_ok this \<Longrightarrow>
     fst (extractTextFromElement tw this (anc, el)) = collectText_spec el
   \<and> fst (extractTextFromElement tw this (anc, el)) = join (map cleaned (fragments_spec el))
   \<and> (fragments_spec el = [] \<longrightarrow> fst (extractTextFromElement tw this (anc, el)) = [])
   \<and> (list_all (\<lambda>leaf. list_all is_ws (snd leaf)) (text_leaves [] (childNodes el))
        \<longrightarrow> fst (extractTextFromElement tw this (anc, el)) = [])"
proof -
  assume ok: "cache_ok this"
  have a: "fst (extractTextFromElement tw this (anc, el)) = collectText_spec el"
    using extractTextFromElement_props [OF ok, of tw "(anc, el)"]
    by (simp add: collectText_spec_def fragments_spec_frags)
  have b: "collectText_spec el = join (map cleaned (fragments_spec el))"
    unfolding collectText_spec_def fragments_spec_frags
    using frags_trimmed by (rule cleaned_join)
  have c: "fragments_spec el = [] \<longrightarrow> collectText_spec el = []"
    by (simp add: b)
  have d: "fragments_spec el = []"
    if "list_all (\<lambda>leaf. list_all is_ws (snd leaf)) (text_leaves [] (childNodes el))"
  proof -
    from that have "\<forall>leaf\<in>set (text_leaves [] (childNodes el)). trim (snd leaf) = []"
      by (auto simp: list_all_iff intro: trim_all_ws)
    then show ?thesis by (auto simp: fragments_spec_def filter_empty_conv)
  qed
  from a b c d show ?thesis by metis
qed

theorem extractTextFromElement_collects_fragments_witness:
  "cache_ok (new_BaseExtractor False)
   \<and> fragments_spec example_div = [js ''Hello'', js ''wor  ld'']
   \<and> fst (extractTextFromElement True (new_BaseExtractor False) ([], example_div)) = js ''Hello wor ld''
   \<and> list_all (\<lambda>leaf. list_all is_ws (snd leaf))
        (text_leaves [] (childNodes (Element (visible_props ''DIV'' []) [TextNode (js ''   '' @ [NL])])))
   \<and> fst (extractTextFromElement True (new_BaseExtractor False)
        ([], Element (visible_props ''DIV'' []) [TextNode (js ''   '' @ [NL])])) = []"
proof -
  have ok: "cache_ok (new_BaseExtractor False)" by (rule cache_ok_new)
  have f: "fragments_spec example_div = [js ''Hello'', js ''wor  ld'']"
    by (simp add: fragments_spec_def path_allowed_def example_div_def eval_text)
  have w: "list_all (\<lambda>leaf. list_all is_ws (snd leaf))
        (text_leaves [] (childNodes (Element (visible_props ''DIV'' []) [TextNode (js ''   '' @ [NL])])))"
    by (simp add: js_def is_ws_def)
  have j: "join (map cleaned [js ''Hello'', js ''wor  ld'']) = js ''Hello wor ld''"
    by (simp add: eval_text)
  from extractTextFromElement_collects_fragments [OF ok, of True "[]" example_div]
  have "fst (extractTextFromElement True (new_BaseExtractor False) ([], example_div))
        = join (map cleaned (fragments_spec example_div))"
    by blast
  with f j have a: "fst (extractTextFromElement True (new_BaseExtractor False) ([], example_div))
        = js ''Hello wor ld''"
    by (simp only:)
  from extractTextFromElement_collects_fragments [OF ok, of True "[]"
         "Element (visible_props ''DIV'' []) [TextNode (js ''   '' @ [NL])]"] w
  have b: "fst (extractTextFromElement True (new_BaseExtractor False)
        ([], Element (visible_props ''DIV'' []) [TextNode (js ''   '' @ [NL])])) = []"
    by blast
  from ok f a w b show ?thesis by blast
qed

section \<open>Properties of the extraction strategies\<close>

subsection \<open>The loops as filters\<close>

lemma extract_text:
  assumes "cache_ok this"
  shows "\<exists>this1. extractTextFromElement tw this le = (collectText_spec (snd le), this1)
       \<and> cache_ok this1 \<and> includeHtml this1 = includeHtml this"
proof -
  obtain r this1 where e: "extractTextFromElement tw this le = (r, this1)"
    by (cases "extractTextFromElement tw this le")
  with extractTextFromElement_props [OF assms, of tw le] show ?thesis
    by (simp add: collectText_spec_def fragments_spec_frags)
qed

lemma generic_forEach_fold:
  "cache_ok this \<Longrightarrow>
     fst (fold (generic_forEach tw) es (acc, this))
       = acc @ map (generic_item (includeHtml this))
                 (filter (\<lambda>le. 20 < length (collectText_spec (snd le))) es)
   \<and> cache_ok (snd (fold (generic_forEach tw) es (acc, this)))
   \<and> includeHtml (snd (fold (generic_forEach tw) es (acc, this))) = includeHtml this"
proof (induction es arbitrary: acc this)
  case Nil
  then show ?case by simp
next
  case (Cons e es)
  from extract_text [OF Cons.prems, of tw e]
  obtain this1 where t: "extractTextFromElement tw this e = (collectText_spec (snd e), this1)"
    and ok: "cache_ok this1" and ih: "includeHtml this1 = includeHtml this"
    by blast
  show ?case
  proof (cases "20 < length (collectText_spec (snd e))")
    case True
    then have "generic_forEach tw e (acc, this)
               = (acc @ [generic_item (includeHtml this) e], this1)"
      by (auto simp: generic_forEach_def t generic_item_def)
    with Cons.IH [OF ok, of "acc @ [generic_item (includeHtml this) e]"] True ih
    show ?thesis by simp
  next
    case False
    then have "generic_forEach tw e (acc, this) = (acc, this1)"
      by (auto simp: generic_forEach_def t)
    with Cons.IH [OF ok, of acc] False ih show ?thesis by simp
  qed
qed

lemma paragraph_filter_pure:
  "cache_ok this \<Longrightarrow>
     fst (paragraph_filter tw this ps)
       = filter (\<lambda>p. isElementVisible (snd p) \<and> 50 < length (collectText_spec (snd p))) ps
   \<and> cache_ok (snd (paragraph_filter tw this ps))
   \<and> includeHtml (snd (paragraph_filter tw this ps)) = includeHtml this"
proof (induction ps arbitrary: this)
  case Nil
  then show ?case by simp
next
  case (Cons p ps)
  show ?case
  proof (cases "isElementVisible (snd p)")
    case False
    with Cons.IH [OF Cons.prems] show ?thesis by simp
  next
    case True
    from extract_text [OF Cons.prems, of tw p]
    obtain this1 where t: "extractTextFromElement tw this p = (collectText_spec (snd p), this1)"
      and ok: "cache_ok this1" and ih: "includeHtml this1 = includeHtml this"
      by blast
    from Cons.IH [OF ok] True ih show ?thesis
      by (simp add: t split_beta)
  qed
qed

lemma twitter_forEach_fold:
  "cache_ok this \<Longrightarrow>
     fst (fold (twitter_forEach tw) es (acc, this))
       = acc @ map (tweet_item (includeHtml this))
                 (filter (\<lambda>t. isElementVisible (snd t)
                             \<and> 5 < length (collectText_spec (snd (tweet_textElement t)))) es)
   \<and> cache_ok (snd (fold (twitter_forEach tw) es (acc, this)))
   \<and> includeHtml (snd (fold (twitter_forEach tw) es (acc, this))) = includeHtml this"
proof (induction es arbitrary: acc this)
  case Nil
  then show ?case by simp
next
  case (Cons e es)
  show ?case
  proof (cases "isElementVisible (snd e)")
    case False
    then have "twitter_forEach tw e (acc, this) = (acc, this)"
      by (simp add: twitter_forEach_def)
    with Cons.IH [OF Cons.prems, of acc] False show ?thesis by simp
  next
    case True
    let ?te = "tweet_textElement e"
    from extract_text [OF Cons.prems, of tw ?te]
    obtain this1 where t: "extractTextFromElement tw this ?te = (collectText_spec (snd ?te), this1)"
      and ok: "cache_ok this1" and ih: "includeHtml this1 = includeHtml this"
      by blast
    show ?thesis
    proof (cases "5 < length (collectText_spec (snd ?te))")
      case long: True
      then have "twitter_forEach tw e (acc, this)
                 = (acc @ [tweet_item (includeHtml this) e], this1)"
        using True by (auto simp: twitter_forEach_def t tweet_item_def Let_def)
      with Cons.IH [OF ok, of "acc @ [tweet_item (includeHtml this) e]"] True long ih
      show ?thesis by simp
    next
      case short: False
      then have "twitter_forEach tw e (acc, this) = (acc, this1)"
        using True by (auto simp: twitter_forEach_def t Let_def)
      with Cons.IH [OF ok, of acc] True short ih show ?thesis by simp
    qed
  qed
qed

lemma twitter_article_forEach_fold:
  "cache_ok this \<Longrightarrow>
     fst (fold (twitter_article_forEach tw) es (acc, this))
       = acc @ map (generic_item (includeHtml this))
                 (filter (\<lambda>a. isElementVisible (snd a)
                             \<and> 20 < length (collectText_spec (snd a))
                             \<and> length (collectText_spec (snd a)) < 2000) es)
   \<and> cache_ok (snd (fold (twitter_article_forEach tw) es (acc, this)))
   \<and> includeHtml (snd (fold (twitter_article_forEach tw) es (acc, this))) = includeHtml this"
proof (induction es arbitrary: acc this)
  case Nil
  then show ?case by simp
next
  case (Cons e es)
  show ?case
  proof (cases "isElementVisible (snd e)")
    case False
    then have "twitter_article_forEach tw e (acc, this) = (acc, this)"
      by (simp add: twitter_article_forEach_def)
    with Cons.IH [OF Cons.prems, of acc] False show ?thesis by simp
  next
    case True
    from extract_text [OF Cons.prems, of tw e]
    obtain this1 where t: "extractTextFromElement tw this e = (collectText_spec (snd e), this1)"
      and ok: "cache_ok this1" and ih: "includeHtml this1 = includeHtml this"
      by blast
    show ?thesis
    proof (cases "20 < length (collectText_spec (snd e)) \<and> length (collectText_spec (snd e)) < 2000")
      case mid: True
      then have "twitter_article_forEach tw e (acc, this)
                 = (acc @ [generic_item (includeHtml this) e], this1)"
        using True by (auto simp: twitter_article_forEach_def t generic_item_def)
      with Cons.IH [OF ok, of "acc @ [generic_item (includeHtml this) e]"] True mid ih
      show ?thesis by simp
    next
      case out: False
      then have "twitter_article_forEach tw e (acc, this) = (acc, this1)"
        using True by (auto simp: twitter_article_forEach_def t)
      with Cons.IH [OF ok, of acc] True out ih show ?thesis by simp
    qed
  qed
qed

lemma GenericExtractor_items:
  assumes "cache_ok this"
  shows "items (fst (GenericExtractor_extract this doc))
         = map (generic_item (includeHtml this))
             (filter (\<lambda>le. 20 < length (collectText_spec (snd le))) (generic_candidates doc))"
proof (cases "first_matching_selector doc contentSelectors = []")
  case False
  with generic_forEach_fold [OF assms, of "createTreeWalker_ok doc"
         "first_matching_selector doc contentSelectors" "[]"]
  show ?thesis
    by (simp add: GenericExtractor_extract_def generic_candidates_def Let_def split_beta)
next
  case True
  let ?tw = "createTreeWalker_ok doc"
  let ?pf = "paragraph_filter ?tw this (querySelectorAll doc ''p'')"
  from paragraph_filter_pure [OF assms, of ?tw "querySelectorAll doc ''p''"]
  have f: "fst ?pf = generic_candidates doc" and ok: "cache_ok (snd ?pf)"
    and ih: "includeHtml (snd ?pf) = includeHtml this"
    using True by (simp_all add: generic_candidates_def)
  from generic_forEach_fold [OF ok, of ?tw "fst ?pf" "[]"] f ih True
  show ?thesis
    by (simp add: GenericExtractor_extract_def Let_def split_beta)
qed

lemma TwitterExtractor_items:
  assumes "cache_ok this"
  shows "items (fst (TwitterExtractor_extract this doc))
         = (if twitter_primary_items (includeHtml this) doc = []
            then twitter_fallback_items (includeHtml this) doc
            else twitter_primary_items (includeHtml this) doc)"
proof -
  let ?tw = "createTreeWalker_ok doc"
  let ?st1 = "fold (twitter_forEach ?tw) (first_matching_selector doc tweetSelectors) ([], this)"
  from twitter_forEach_fold [OF assms, of ?tw "first_matching_selector doc tweetSelectors" "[]"]
  have p: "fst ?st1 = twitter_primary_items (includeHtml this) doc"
    and ok: "cache_ok (snd ?st1)" and ih: "includeHtml (snd ?st1) = includeHtml this"
    by (simp_all add: twitter_primary_items_def)
  show ?thesis
  proof (cases "twitter_primary_items (includeHtml this) doc = []")
    case False
    with p show ?thesis
      by (simp add: TwitterExtractor_extract_def Let_def split_beta)
  next
    case True
    have st1: "?st1 = ([], snd ?st1)" using p True by (simp add: prod_eq_iff)
    from twitter_article_forEach_fold [OF ok, of ?tw "querySelectorAll doc ''article''" "[]"] ih
    have "fst (fold (twitter_article_forEach ?tw) (querySelectorAll doc ''article'') ([], snd ?st1))
          = twitter_fallback_items (includeHtml this) doc"
      by (simp add: twitter_fallback_items_def)
    with True p st1 show ?thesis
      by (simp add: TwitterExtractor_extract_def Let_def split_beta)
  qed
qed


lemma first_matching_selector_none:
  "list_all (\<lambda>p. querySelectorAll doc p = []) sels \<Longrightarrow> first_matching_selector doc sels = []"
  by (induction sels) (simp_all add: Let_def)

subsection \<open>Invariants of the item lists\<close>
















subsection \<open>Claims about the strategies\<close>

text \<open>
  C1. The Reddit and the Twitter extractor admit an element only after
  \<open>isElementVisible\<close> has accepted it (\<open>RedditExtractor_threshold\<close>,
  \<open>TwitterExtractor_threshold\<close>), the Hacker News extractor tests the element whose text
  it extracts, and the generic extractor tests the paragraphs of its fallback. The
  elements of the primary selector groups of the generic extractor are never tested: on a
  page with an article hidden by an inline \<open>display: none\<close> and an article with a
  bounding box of zero size, both articles become items.
\<close>

theorem GenericExtractor_admits_hidden_elements:
  "map textContent
     (items (fst (GenericExtractor_extract (new_BaseExtractor False) example_hidden_articles)))
     = [js ''This hidden article is long.'', js ''This collapsed article is long.'']
   \<and> map (style_display \<circ> props \<circ> element)
       (items (fst (GenericExtractor_extract (new_BaseExtractor False) example_hidden_articles)))
     = [''none'', []]
   \<and> map (rect_width \<circ> props \<circ> element)
       (items (fst (GenericExtractor_extract (new_BaseExtractor False) example_hidden_articles)))
     = [0, 0]
   \<and> map (isElementVisible \<circ> element)
       (items (fst (GenericExtractor_extract (new_BaseExtractor False) example_hidden_articles)))
     = [False, False]"
  by (simp add: GenericExtractor_extract_def generic_forEach_def example_hidden_articles_def
      eval_dom eval_text)




text \<open>
  C3, as stated, fails for the generic extractor: the paragraph fallback depends on
  whether a primary selector matched an element, not on whether items were produced. On a
  page whose only article is too short and which has a long visible paragraph, the primary
  group yields no item and the paragraph is not extracted either.
\<close>

theorem GenericExtractor_no_fallback_after_short_article:
  "items (fst (GenericExtractor_extract (new_BaseExtractor False) example_short_article)) = []
   \<and> map (isElementVisible \<circ> snd) (querySelectorAll example_short_article ''p'') = [True]
   \<and> map (length \<circ> collectText_spec \<circ> snd) (querySelectorAll example_short_article ''p'') = [64]"
  by (simp add: GenericExtractor_extract_def generic_forEach_def example_short_article_def
      eval_dom eval_text eval_spec)

text \<open>
  C3, amended. Generic extractor: the paragraph fallback is used exactly when no primary
  selector matches any element; the items are then the \<open>p\<close> elements that are visible and
  whose text is longer than 50 characters. When a primary selector matches, every item
  stems from the first matching group and has text longer than 20 characters, and no
  paragraph fallback takes place even if that group yields no item. Twitter extractor:
  the primary pass admits the visible elements of the first matching group whose tweet
  text is longer than 5 characters; exactly when that pass admits no item, the items are
  the visible \<open>article\<close> elements whose text is longer than 20 and shorter than 2000
  characters.
\<close>

theorem fallback_passes:
  "cache_ok this \<Longrightarrow>
     (first_matching_selector doc contentSelectors \<noteq> [] \<longrightarrow>
        list_all (\<lambda>it. element it \<in> snd ` set (first_matching_selector doc contentSelectors)
                      \<and> 20 < length (textContent it))
          (items (fst (GenericExtractor_extract this doc))))
   \<and> (first_matching_selector doc contentSelectors = [] \<longrightarrow>
        items (fst (GenericExtractor_extract this doc))
          = map (generic_item (includeHtml this))
              (filter (\<lambda>p. isElementVisible (snd p) \<and> 50 < length (collectText_spec (snd p)))
                 (querySelectorAll doc ''p'')))
   \<and> fst (fold (twitter_forEach (createTreeWalker_ok doc))
             (first_matching_selector doc tweetSelectors) ([], this))
       = map (tweet_item (includeHtml this))
           (filter (\<lambda>t. isElementVisible (snd t)
                       \<and> 5 < length (collectText_spec (snd (tweet_textElement t))))
              (first_matching_selector doc tweetSelectors))
   \<and> (fst (fold (twitter_forEach (createTreeWalker_ok doc))
               (first_matching_selector doc tweetSelectors) ([], this)) \<noteq> [] \<longrightarrow>
        items (fst (TwitterExtractor_extract this doc))
          = fst (fold (twitter_forEach (createTreeWalker_ok doc))
                   (first_matching_selector doc tweetSelectors) ([], this)))
   \<and> (fst (fold (twitter_forEach (createTreeWalker_ok doc))
               (first_matching_selector doc tweetSelectors) ([], this)) = [] \<longrightarrow>
        items (fst (TwitterExtractor_extract this doc))
          = map (generic_item (includeHtml this))
              (filter (\<lambda>a. isElementVisible (snd a)
                          \<and> 20 < length (collectText_spec (snd a))
                          \<and> length (collectText_spec (snd a)) < 2000)
                 (querySelectorAll doc ''article'')))"
proof -
  assume ok: "cache_ok this"
  from twitter_forEach_fold [OF ok, of "createTreeWalker_ok doc"
         "first_matching_selector doc tweetSelectors" "[]"]
  have p: "fst (fold (twitter_forEach (createTreeWalker_ok doc))
             (first_matching_selector doc tweetSelectors) ([], this))
       = twitter_primary_items (includeHtml this) doc"
    by (simp add: twitter_primary_items_def)
  have g1: "list_all (\<lambda>it. element it \<in> snd ` set (first_matching_selector doc contentSelectors)
                      \<and> 20 < length (textContent it))
          (items (fst (GenericExtractor_extract this doc)))"
    if "first_matching_selector doc contentSelectors \<noteq> []"
    using that GenericExtractor_items [OF ok, of doc]
    by (auto simp: generic_candidates_def generic_item_def list_all_iff)
  have g2: "items (fst (GenericExtractor_extract this doc))
          = map (generic_item (includeHtml this))
              (filter (\<lambda>p. isElementVisible (snd p) \<and> 50 < length (collectText_spec (snd p)))
                 (querySelectorAll doc ''p''))"
    if "first_matching_selector doc contentSelectors = []"
  proof -
    have "filter (\<lambda>le. 20 < length (collectText_spec (snd le)))
            (filter (\<lambda>p. isElementVisible (snd p) \<and> 50 < length (collectText_spec (snd p)))
               (querySelectorAll doc ''p''))
          = filter (\<lambda>p. isElementVisible (snd p) \<and> 50 < length (collectText_spec (snd p)))
              (querySelectorAll doc ''p'')"
      by (induction "querySelectorAll doc ''p''") (auto intro: filter_cong)
    with that GenericExtractor_items [OF ok, of doc] show ?thesis
      by (simp add: generic_candidates_def)
  qed
  from TwitterExtractor_items [OF ok, of doc] p g1 g2 show ?thesis
    by (simp add: twitter_primary_items_def twitter_fallback_items_def)
qed

theorem fallback_passes_witness:
  "cache_ok (new_BaseExtractor False)
   \<and> first_matching_selector example_paragraphs contentSelectors = []
   \<and> map textContent (items (fst (GenericExtractor_extract (new_BaseExtractor False) example_paragraphs)))
       = [js ''A visible paragraph that has clearly more than fifty characters.'']
   \<and> first_matching_selector example_short_article contentSelectors \<noteq> []
   \<and> list_all (\<lambda>it. element it \<in> snd ` set (first_matching_selector example_short_article contentSelectors)
                   \<and> 20 < length (textContent it))
        (items (fst (GenericExtractor_extract (new_BaseExtractor False) example_short_article)))
   \<and> map textContent (items (fst (TwitterExtractor_extract (new_BaseExtractor False) example_tweets)))
       = [js ''Tweet text one.'']
   \<and> fst (fold (twitter_forEach (createTreeWalker_ok example_article_and_content))
             (first_matching_selector example_article_and_content tweetSelectors)
             ([], new_BaseExtractor False)) = []
   \<and> map textContent
        (items (fst (TwitterExtractor_extract (new_BaseExtractor False) example_article_and_content)))
       = [js ''Article text, long enough.'']"
proof -
  have ok: "cache_ok (new_BaseExtractor False)" by (rule cache_ok_new)
  have f: "first_matching_selector example_paragraphs contentSelectors = []"
    by (simp add: example_paragraphs_def eval_dom visible_props_def)
  have c: "map textContent (map (generic_item False)
             (filter (\<lambda>p. isElementVisible (snd p) \<and> 50 < length (collectText_spec (snd p)))
                (querySelectorAll example_paragraphs ''p'')))
           = [js ''A visible paragraph that has clearly more than fifty characters.'']"
    by (simp add: example_paragraphs_def eval_dom eval_text eval_spec)
  have n: "first_matching_selector example_short_article contentSelectors \<noteq> []"
    by (simp add: example_short_article_def eval_dom visible_props_def)
  from fallback_passes [OF ok, of example_paragraphs] f c
  have a: "map textContent (items (fst (GenericExtractor_extract (new_BaseExtractor False) example_paragraphs)))
       = [js ''A visible paragraph that has clearly more than fifty characters.'']"
    by (simp add: new_BaseExtractor_def)
  from fallback_passes [OF ok, of example_short_article] n
  have b: "list_all (\<lambda>it. element it \<in> snd ` set (first_matching_selector example_short_article contentSelectors)
                   \<and> 20 < length (textContent it))
        (items (fst (GenericExtractor_extract (new_BaseExtractor False) example_short_article)))"
    by blast
  have tp: "map textContent (map (tweet_item False)
              (filter (\<lambda>t. isElementVisible (snd t)
                          \<and> 5 < length (collectText_spec (snd (tweet_textElement t))))
                 (first_matching_selector example_tweets tweetSelectors)))
            = [js ''Tweet text one.'']"
    by (simp add: example_tweets_def eval_dom eval_text eval_spec)
  from fallback_passes [OF ok, of example_tweets] tp
  have t1: "map textContent (items (fst (TwitterExtractor_extract (new_BaseExtractor False) example_tweets)))
       = [js ''Tweet text one.'']"
    by (auto simp: new_BaseExtractor_def)
  have e: "first_matching_selector example_article_and_content tweetSelectors = []"
    by (simp add: example_article_and_content_def eval_dom visible_props_def)
  then have pe: "fst (fold (twitter_forEach (createTreeWalker_ok example_article_and_content))
             (first_matching_selector example_article_and_content tweetSelectors)
             ([], new_BaseExtractor False)) = []"
    by simp
  have fa: "map textContent (map (generic_item False)
              (filter (\<lambda>a. isElementVisible (snd a)
                          \<and> 20 < length (collectText_spec (snd a))
                          \<and> length (collectText_spec (snd a)) < 2000)
                 (querySelectorAll example_article_and_content ''article'')))
            = [js ''Article text, long enough.'']"
    by (simp add: example_article_and_content_def eval_dom eval_text eval_spec)
  from fallback_passes [OF ok, of example_article_and_content] pe fa
  have t2: "map textContent
        (items (fst (TwitterExtractor_extract (new_BaseExtractor False) example_article_and_content)))
       = [js ''Article text, long enough.'']"
    by (simp add: new_BaseExtractor_def)
  from ok f a n b t1 pe t2 show ?thesis by blast
qed



end
